theory Spec2Isabelle
  imports Complex_Main "HOL-Library.Log_Nat" "HOL-Library.Multiset"
begin

section \<open>JavaScript numbers\<close>

text \<open>
  Every \<^verbatim>\<open>number\<close> of the program is an IEEE-754 binary64 value.  A finite one is
  modelled by the rational it denotes, and every arithmetic operator rounds its exact
  result to 53 significant bits, ties to even (\<open>fl\<close>).  The exponent range of binary64
  is not modelled: \<open>fl x\<close> is the machine's rounding of \<open>x\<close> when \<open>x\<close> is zero or its
  magnitude lies between \<open>2^-1022\<close> and the overflow threshold just below \<open>2^1024\<close>, which
  covers note ids (array indices) and track times in seconds.  \<^verbatim>\<open>NaN\<close>, the infinities
  and the sign of zero are outside the model.
\<close>

text \<open>The binary exponent of a positive rational: \<open>2 powi expo x \<le> x < 2 powi (expo x + 1)\<close>.\<close>

definition expo :: "rat \<Rightarrow> int" where
  "expo x = (if 1 \<le> x then bitlen \<lfloor>x\<rfloor> - 1 else - bitlen (\<lceil>1 / x\<rceil> - 1))"

text \<open>Rounding to the nearest integer, a tie going to the even neighbour.\<close>

definition rnd_even :: "rat \<Rightarrow> int" where
  "rnd_even r =
     (let f = \<lfloor>r\<rfloor>; d = r - of_int f
      in if d < 1 / 2 then f else if 1 / 2 < d then f + 1 else if even f then f else f + 1)"

definition fl :: "rat \<Rightarrow> rat" where
  "fl x =
     (if x = 0 then 0
      else let u = 2 powi (expo \<bar>x\<bar> - 52)
           in sgn x * of_int (rnd_even (\<bar>x\<bar> / u)) * u)"

text \<open>The unit in the last place of the binade of a positive \<open>x\<close>.\<close>

definition ulp :: "rat \<Rightarrow> rat" where
  "ulp x = 2 powi (expo x - 52)"

definition jadd :: "rat \<Rightarrow> rat \<Rightarrow> rat" where "jadd x y = fl (x + y)"
definition jsub :: "rat \<Rightarrow> rat \<Rightarrow> rat" where "jsub x y = fl (x - y)"
definition jmul :: "rat \<Rightarrow> rat \<Rightarrow> rat" where "jmul x y = fl (x * y)"
definition jdiv :: "rat \<Rightarrow> rat \<Rightarrow> rat" where "jdiv x y = fl (x / y)"

text \<open>
  \<^verbatim>\<open>x % y\<close> is the remainder of the division truncated towards zero; it takes the sign
  of the dividend and is exact in binary64.
\<close>

definition trunc :: "rat \<Rightarrow> int" where
  "trunc q = (if 0 \<le> q then \<lfloor>q\<rfloor> else \<lceil>q\<rceil>)"

definition jmod :: "rat \<Rightarrow> rat \<Rightarrow> rat" where
  "jmod x y = x - y * of_int (trunc (x / y))"

section \<open>The random number generator and lane assignment\<close>

definition RNG_m :: rat where "RNG_m = 2147483648"
definition RNG_a :: rat where "RNG_a = 1103515245"
definition RNG_c :: rat where "RNG_c = 12345"

definition hash :: "rat \<Rightarrow> rat" where
  "hash seed = jmod (jadd (jmul RNG_a seed) RNG_c) RNG_m"

definition scale :: "rat \<Rightarrow> rat" where
  "scale h = jsub (jdiv (jmul 2 h) (jsub RNG_m 1)) 1"

definition cxValues :: "nat list" where
  "cxValues = [20, 40, 60, 80]"

text \<open>
  \<open>getCx\<close> returns \<open>cxValues[index]\<close>; an index outside \<open>0..3\<close> reads
  \<^verbatim>\<open>undefined\<close>, which is \<open>None\<close> here.
\<close>

definition cxIndex :: "rat \<Rightarrow> int" where
  "cxIndex seed = \<lfloor>jmul (jdiv (jadd (scale (hash seed)) 1) 2) 4\<rfloor>"

definition getCx :: "rat \<Rightarrow> nat option" where
  "getCx seed =
     (let index = cxIndex seed
      in if 0 \<le> index \<and> index < int (length cxValues) then Some (cxValues ! nat index) else None)"


section \<open>Notes and the game state\<close>

text \<open>
  The numeric fields of a note are whatever \<^verbatim>\<open>Number\<close> returned when the track was
  loaded, so the record is polymorphic in them; the game itself runs on \<open>rat Note\<close>.
  The field \<^verbatim>\<open>id\<close> is the row's array index.
\<close>

record 'n Note =
  id_note :: nat
  user_played :: bool
  instrument :: string
  velocity :: 'n
  pitch :: 'n
  startTime :: 'n
  endTime :: 'n

record State =
  gameEnd :: bool
  score :: rat
  highscore :: rat
  multiplier :: rat
  currentTime :: rat
  notes_st :: "rat Note list"

definition initialState :: State where
  "initialState =
     \<lparr>gameEnd = False, score = 0, highscore = 0, multiplier = 0, currentTime = 0, notes_st = []\<rparr>"

definition tick :: "State \<Rightarrow> State" where
  "tick s = s"

text \<open>
  The accumulator function that \<^verbatim>\<open>source$\<close> hands to \<^verbatim>\<open>scan\<close>:
  \<^verbatim>\<open>(s: State) => ({ ...initialState})\<close>.  It reads neither the previous state nor the
  tick number, and it does not call \<open>tick\<close>.
\<close>

definition scanState :: "State \<Rightarrow> nat \<Rightarrow> State" where
  "scanState s n = initialState"

section \<open>The registry, the circles and playback\<close>

datatype Key = KeyH | KeyJ | KeyK | KeyL

text \<open>
  An SVG circle is a mutable object shared by \<^verbatim>\<open>userPlayedNotesMap\<close> and by the closure
  of \<^verbatim>\<open>moveCircle\<close>, so circles live in a store addressed by reference.  Only the
  attribute \<^verbatim>\<open>cy\<close> and whether the element is still attached to the canvas matter.
  \<^verbatim>\<open>cy\<close> only ever holds \<^verbatim>\<open>"0"\<close> or \<^verbatim>\<open>String(updatedY)\<close> for an integer
  \<^verbatim>\<open>updatedY\<close>, which \<^verbatim>\<open>parseFloat\<close> reads back unchanged: it is a \<open>nat\<close> here.
\<close>

record circle =
  cy :: nat
  attached :: bool

text \<open>
  The subscription \<^verbatim>\<open>move$\<close> that \<^verbatim>\<open>moveCircle\<close> starts for a circle: the note it
  captured, the accumulator of its \<^verbatim>\<open>scan\<close>, and whether \<^verbatim>\<open>takeWhile\<close> has not
  completed it yet.
\<close>

record fall =
  fnote :: "rat Note"
  accum_Y :: nat
  moving :: bool

text \<open>
  A call of \<^verbatim>\<open>triggerAttackRelease\<close> that \<^verbatim>\<open>playSound\<close> made: the note, the optional
  \<^verbatim>\<open>duration\<close> argument as \<^verbatim>\<open>playSound\<close> received it (\<open>None\<close> when omitted) and the
  duration handed on.  What the sampler does with the call is not part of the program.
\<close>

record playback =
  pb_note :: "rat Note"
  pb_supplied :: "rat option"
  pb_duration :: rat

datatype error = TypeError

text \<open>
  \<^verbatim>\<open>userPlayedNotesMap\<close> is keyed by \<^verbatim>\<open>note.id.toString()\<close>, which is injective on
  ids, so the key is the id itself.  \<^verbatim>\<open>samples\<close> is the object \<^verbatim>\<open>main\<close> receives, known
  by the instrument names it has a sampler for.  \<open>uncaught\<close> collects the exceptions that
  callbacks threw and nothing caught.
\<close>

record world =
  st :: State
  samples :: "string list"
  userPlayedNotesMap :: "nat \<rightharpoonup> nat"
  activeNotes :: "Key \<rightharpoonup> rat Note list"
  circles :: "nat \<Rightarrow> circle"
  falls :: "nat \<Rightarrow> fall"
  nextCircle :: nat
  sounds :: "playback list"
  uncaught :: "error list"

text \<open>
  A function with effects returns, \<open>Inr w\<close> with the world it leaves, or throws,
  \<open>Inl (e, w)\<close> with the exception and the world at the throw: what was done before the
  throw stays done.
\<close>

type_synonym result = "(error \<times> world) + world"

definition CANVAS_HEIGHT :: nat where
  "CANVAS_HEIGHT = 400"

text \<open>\<^verbatim>\<open>duration || note.endTime - note.startTime\<close>: zero is falsy.\<close>

definition soundDuration :: "rat Note \<Rightarrow> rat option \<Rightarrow> rat" where
  "soundDuration note duration =
     (case duration of
        None \<Rightarrow> jsub (endTime note) (startTime note)
      | Some d \<Rightarrow> if d = 0 then jsub (endTime note) (startTime note) else d)"

text \<open>
  \<^verbatim>\<open>samples[note.instrument]\<close> is \<^verbatim>\<open>undefined\<close> for a name without a sampler, and reading
  \<^verbatim>\<open>triggerAttackRelease\<close> off it throws a \<^verbatim>\<open>TypeError\<close> before any argument is
  evaluated.
\<close>

definition playSound :: "rat Note \<Rightarrow> rat option \<Rightarrow> world \<Rightarrow> result" where
  "playSound note duration w =
     (if instrument note \<in> set (samples w)
      then Inr (w\<lparr>sounds := sounds w @
             [\<lparr>pb_note = note, pb_supplied = duration, pb_duration = soundDuration note duration\<rparr>]\<rparr>)
      else Inl (TypeError, w))"

definition addNoteToKey :: "Key \<Rightarrow> rat Note \<Rightarrow> world \<Rightarrow> world" where
  "addNoteToKey key note w =
     (case activeNotes w key of
        None \<Rightarrow> w
      | Some ns \<Rightarrow> w\<lparr>activeNotes := (activeNotes w)(key \<mapsto> ns @ [note])\<rparr>)"

definition moveCircle :: "nat \<Rightarrow> rat Note \<Rightarrow> world \<Rightarrow> world" where
  "moveCircle c note w =
     w\<lparr>falls := (falls w)(c := \<lparr>fnote = note, accum_Y = 0, moving = True\<rparr>)\<rparr>"

text \<open>The fallback duration of a forced miss.\<close>

definition missDuration :: "rat Note \<Rightarrow> rat" where
  "missDuration note = scale (hash (endTime note))"

text \<open>
  One emission of \<^verbatim>\<open>interval(10)\<close> for the fall \<open>c\<close>: \<^verbatim>\<open>scan\<close> adds 2,
  \<^verbatim>\<open>takeWhile\<close> lets the value through while it is at most the canvas height and
  completes the subscription otherwise; the subscriber writes \<^verbatim>\<open>cy\<close> and, at the
  bottom, removes the circle and plays the fallback sound.  A completed subscription
  emits nothing.
\<close>

definition moveStep :: "nat \<Rightarrow> world \<Rightarrow> result" where
  "moveStep c w =
     (let f = falls w c
      in if \<not> moving f then Inr w
         else
           let updatedY = accum_Y f + 2;
               w1 = w\<lparr>falls := (falls w)(c := f\<lparr>accum_Y := updatedY\<rparr>)\<rparr>
           in if updatedY \<le> CANVAS_HEIGHT
              then
                let w2 = w1\<lparr>circles := (circles w1)(c := (circles w1 c)\<lparr>cy := updatedY\<rparr>)\<rparr>
                in if updatedY \<ge> CANVAS_HEIGHT
                   then playSound (fnote f) (Some (missDuration (fnote f)))
                          (w2\<lparr>circles := (circles w2)(c := (circles w2 c)\<lparr>attached := False\<rparr>)\<rparr>)
                   else Inr w2
              else Inr (w1\<lparr>falls := (falls w1)(c := (falls w1 c)\<lparr>moving := False\<rparr>)\<rparr>))"

text \<open>
  \<^verbatim>\<open>cxValue\<close> is \<^verbatim>\<open>String(getCx(note.id))\<close>; it equals the text of \<open>20 + index * 20\<close>
  exactly when \<open>getCx\<close> returned that number.
\<close>

definition createCircleNote :: "rat Note \<Rightarrow> world \<Rightarrow> world" where
  "createCircleNote note w =
     (let cxValue = getCx (of_nat (id_note note));
          c = nextCircle w;
          w1 = w\<lparr>circles := (circles w)(c := \<lparr>cy = 0, attached = True\<rparr>), nextCircle := Suc c\<rparr>;
          w2 = w1\<lparr>userPlayedNotesMap := (userPlayedNotesMap w1)(id_note note \<mapsto> c)\<rparr>;
          w3 = foldl (\<lambda>v (key, index).
                  if cxValue = Some (20 + index * 20) then addNoteToKey key note v else v)
                w2 [(KeyH, 0), (KeyJ, 1), (KeyK, 2), (KeyL, 3)]
      in moveCircle c note w3)"

definition isNoteInTargetZone :: "nat \<Rightarrow> bool" where
  "isNoteInTargetZone circleY =
     (let targetZone = 360 in circleY \<ge> targetZone - 10 \<and> circleY \<le> targetZone + 10)"

text \<open>An exception of \<^verbatim>\<open>playSound\<close> leaves the circle and the registry entry in place.\<close>

definition handleKeyPress :: "Key \<Rightarrow> rat Note \<Rightarrow> world \<Rightarrow> result" where
  "handleKeyPress key note w =
     (case userPlayedNotesMap w (id_note note) of
        None \<Rightarrow> Inr w
      | Some c \<Rightarrow>
          let y = cy (circles w c)
          in if isNoteInTargetZone y
             then
               (case playSound note None w of
                  Inl thrown \<Rightarrow> Inl thrown
                | Inr w1 \<Rightarrow>
                    let w2 = w1\<lparr>circles := (circles w1)(c := (circles w1 c)\<lparr>attached := False\<rparr>)\<rparr>
                    in Inr (w2\<lparr>userPlayedNotesMap := (userPlayedNotesMap w2)(id_note note := None)\<rparr>))
             else Inr w)"

text \<open>The four filters on \<^verbatim>\<open>event.code\<close> that \<^verbatim>\<open>keys$\<close> merges.\<close>

definition keyOfCode :: "string \<Rightarrow> Key option" where
  "keyOfCode code =
     (if code = ''KeyH'' then Some KeyH
      else if code = ''KeyJ'' then Some KeyJ
      else if code = ''KeyK'' then Some KeyK
      else if code = ''KeyL'' then Some KeyL
      else None)"

definition notesForKey :: "world \<Rightarrow> Key \<Rightarrow> rat Note list" where
  "notesForKey w key = (case activeNotes w key of Some ns \<Rightarrow> ns | None \<Rightarrow> [])"

text \<open>
  \<^verbatim>\<open>Array.prototype.forEach\<close> with a callback that may throw: the exception ends the
  iteration, and the elements after it are not visited.
\<close>

fun forEach :: "('a \<Rightarrow> world \<Rightarrow> result) \<Rightarrow> 'a list \<Rightarrow> world \<Rightarrow> result" where
  "forEach f [] w = Inr w"
| "forEach f (x # xs) w = (case f x w of Inl thrown \<Rightarrow> Inl thrown | Inr v \<Rightarrow> forEach f xs v)"

text \<open>The subscriber of \<^verbatim>\<open>keys$\<close>.\<close>

definition keydown :: "string \<Rightarrow> world \<Rightarrow> result" where
  "keydown code w =
     (case keyOfCode code of
        None \<Rightarrow> Inr w
      | Some key \<Rightarrow> forEach (handleKeyPress key) (notesForKey w key) w)"

text \<open>The subscriber of \<^verbatim>\<open>note$\<close>.\<close>

definition emitNote :: "rat Note \<Rightarrow> world \<Rightarrow> result" where
  "emitNote note w =
     (if user_played note then Inr (createCircleNote note w) else playSound note None w)"

section \<open>The event loop\<close>

text \<open>
  Everything runs on one thread, one callback at a time.  A run of the game is the list
  of callbacks in the order the scheduler delivered them: a note coming due on
  \<^verbatim>\<open>note$\<close>, an emission of the 10 ms interval of one fall, a key going down, a tick
  of the 500 ms game clock.  No callback catches an exception: one that a subscriber
  throws ends that callback, is reported by rxjs to the host as an unhandled error, and
  the event loop goes on with the next callback.
\<close>

datatype event = NoteDue "rat Note" | Interval nat | KeyDown string | Tick

definition clockTick :: "world \<Rightarrow> world" where
  "clockTick w = w\<lparr>st := scanState (st w) 0\<rparr>"

definition report :: "result \<Rightarrow> world" where
  "report r = (case r of Inr w \<Rightarrow> w | Inl (e, w) \<Rightarrow> w\<lparr>uncaught := uncaught w @ [e]\<rparr>)"

fun step :: "world \<Rightarrow> event \<Rightarrow> world" where
  "step w (NoteDue note) = report (emitNote note w)"
| "step w (Interval c) = report (moveStep c w)"
| "step w (KeyDown code) = report (keydown code w)"
| "step w Tick = clockTick w"

definition run :: "world \<Rightarrow> event list \<Rightarrow> world" where
  "run w es = foldl step w es"

definition noCircle :: circle where
  "noCircle = \<lparr>cy = 0, attached = False\<rparr>"

definition noFall :: fall where
  "noFall =
     \<lparr>fnote = \<lparr>id_note = 0, user_played = False, instrument = [], velocity = 0, pitch = 0,
               startTime = 0, endTime = 0\<rparr>,
      accum_Y = 0, moving = False\<rparr>"

text \<open>The instruments the page loads samplers for before it calls \<^verbatim>\<open>main\<close>.\<close>

definition loadedInstruments :: "string list" where
  "loadedInstruments =
     [''bass-electric'', ''violin'', ''piano'', ''trumpet'', ''saxophone'', ''trombone'', ''flute'']"

text \<open>
  The state when \<^verbatim>\<open>main\<close> has run: no circle allocated (every reference of the store
  is still unused), the four lanes empty.
\<close>

definition initWorld :: world where
  "initWorld =
     \<lparr>st = initialState,
      samples = loadedInstruments,
      userPlayedNotesMap = Map.empty,
      activeNotes = [KeyH \<mapsto> [], KeyJ \<mapsto> [], KeyK \<mapsto> [], KeyL \<mapsto> []],
      circles = (\<lambda>c. noCircle),
      falls = (\<lambda>c. noFall),
      nextCircle = 0,
      sounds = [],
      uncaught = []\<rparr>"

section \<open>Scheduling\<close>

text \<open>
  Times are in milliseconds since \<^verbatim>\<open>main\<close> subscribed, on the nominal timeline: a timer
  runs at the instant it is due.  \<open>delayArg\<close> is the argument that \<^verbatim>\<open>note$\<close> passes to
  \<^verbatim>\<open>delay\<close> for a note; \<^verbatim>\<open>delay\<close> emits at once when the argument is not positive, so
  the note is emitted at \<open>spawnTime\<close>.  The \<open>k\<close>-th emission of the note's 10 ms interval
  is due at \<open>emissionTime\<close>.
\<close>

definition delayArg :: "rat Note \<Rightarrow> rat" where
  "delayArg note =
     (if user_played note then jsub (jmul (startTime note) 1000) 3500
      else jmul (startTime note) 1000)"

definition spawnTime :: "rat Note \<Rightarrow> rat" where
  "spawnTime note = max 0 (delayArg note)"

definition emissionTime :: "rat Note \<Rightarrow> nat \<Rightarrow> rat" where
  "emissionTime note k = spawnTime note + 10 * of_nat k"

text \<open>
  The callbacks that a track and the player's key presses make due, each with its
  instant: for every note its emission by \<^verbatim>\<open>note$\<close> and, for a player note, the
  emissions of its interval up to the 201st, whose value 402 completes \<^verbatim>\<open>takeWhile\<close>;
  for every key press of the trace the press.  The interval of a note is known by the
  note's id.
\<close>

datatype callback = Due "rat Note" | Fall nat | Press string

definition timersOf :: "rat Note \<Rightarrow> (rat \<times> callback) list" where
  "timersOf note =
     (spawnTime note, Due note) #
     (if user_played note
      then map (\<lambda>k. (emissionTime note k, Fall (id_note note))) [1..<202]
      else [])"

definition dueCallbacks :: "rat Note list \<Rightarrow> (rat \<times> string) list \<Rightarrow> (rat \<times> callback) list" where
  "dueCallbacks track keys =
     concat (map timersOf track) @ map (\<lambda>(t, code). (t, Press code)) keys"

text \<open>
  A schedule of a track and a key trace runs every due callback once, none before one
  that is due earlier.  Nothing in the program orders two callbacks that are due at the
  same instant.
\<close>

definition admissible ::
  "rat Note list \<Rightarrow> (rat \<times> string) list \<Rightarrow> (rat \<times> callback) list \<Rightarrow> bool" where
  "admissible track keys sched \<longleftrightarrow>
     sorted (map fst sched) \<and> mset sched = mset (dueCallbacks track keys)"

text \<open>
  The scheduler hands an emission of a note's interval to the closure that \<^verbatim>\<open>moveCircle\<close>
  made for the note, which holds the note's circle: \<open>refs\<close> remembers the circle of each
  note id, and circles are numbered in the order in which notes are emitted, as
  \<open>createCircleNote\<close> numbers them from \<open>initWorld\<close>.
\<close>

fun deliver :: "(nat \<rightharpoonup> nat) \<Rightarrow> nat \<Rightarrow> callback list \<Rightarrow> event list" where
  "deliver refs c [] = []"
| "deliver refs c (Due note # cs) =
     NoteDue note #
     (if user_played note then deliver (refs(id_note note \<mapsto> c)) (Suc c) cs
      else deliver refs c cs)"
| "deliver refs c (Fall i # cs) =
     (case refs i of
        Some r \<Rightarrow> Interval r # deliver refs c cs
      | None \<Rightarrow> deliver refs c cs)"
| "deliver refs c (Press code # cs) = KeyDown code # deliver refs c cs"

definition events :: "(rat \<times> callback) list \<Rightarrow> event list" where
  "events sched = deliver Map.empty 0 (map snd sched)"

section \<open>Loading the track\<close>

text \<open>
  The track is a text of 8-bit characters.  \<^verbatim>\<open>String.prototype.split\<close> with a separator
  of one character.
\<close>

fun split_acc :: "char \<Rightarrow> string \<Rightarrow> string \<Rightarrow> string list" where
  "split_acc sep cur [] = [rev cur]"
| "split_acc sep cur (x # xs) =
     (if x = sep then rev cur # split_acc sep [] xs else split_acc sep (x # cur) xs)"

definition split :: "char \<Rightarrow> string \<Rightarrow> string list" where
  "split sep s = split_acc sep [] s"

text \<open>
  \<^verbatim>\<open>trim\<close> strips white space and line terminators: of the 8-bit characters these are
  the tab, the line feed, the vertical tab, the form feed, the carriage return, the
  space and the no-break space.
\<close>

definition isSpace :: "char \<Rightarrow> bool" where
  "isSpace ch =
     (ch \<in> {CHR 0x09, CHR 0x0A, CHR 0x0B, CHR 0x0C, CHR 0x0D, CHR 0x20, CHR 0xA0})"

definition trim :: "string \<Rightarrow> string" where
  "trim s = rev (dropWhile isSpace (rev (dropWhile isSpace s)))"

text \<open>An element of a destructured array: \<open>None\<close> is \<^verbatim>\<open>undefined\<close>.\<close>

definition field :: "string list \<Rightarrow> nat \<Rightarrow> string option" where
  "field fs k = (if k < length fs then Some (fs ! k) else None)"

text \<open>
  The callback of \<^verbatim>\<open>map\<close> in \<^verbatim>\<open>loadCSV\<close>.  \<^verbatim>\<open>Number\<close> is the language's conversion,
  taken as a parameter together with the division by 127; it receives \<open>None\<close> for a
  missing column.  Calling \<^verbatim>\<open>trim\<close> on a missing column throws a \<^verbatim>\<open>TypeError\<close>.
\<close>

definition parseRow ::
  "(string option \<Rightarrow> 'n) \<Rightarrow> ('n \<Rightarrow> 'n) \<Rightarrow> nat \<Rightarrow> string \<Rightarrow> error + 'n Note" where
  "parseRow Number div127 index line =
     (let fs = split CHR '','' line
      in case field fs 0 of
           None \<Rightarrow> Inl TypeError
         | Some user_played_col \<Rightarrow>
             (case field fs 1 of
                None \<Rightarrow> Inl TypeError
              | Some instrument_name \<Rightarrow>
                  Inr \<lparr>id_note = index,
                       user_played = (trim user_played_col = ''True''),
                       instrument = trim instrument_name,
                       velocity = div127 (Number (field fs 2)),
                       pitch = Number (field fs 3),
                       startTime = Number (field fs 4),
                       endTime = Number (field fs 5)\<rparr>))"

text \<open>\<^verbatim>\<open>Array.prototype.map\<close> with the index; the first exception ends the load.\<close>

fun mapRows ::
  "(string option \<Rightarrow> 'n) \<Rightarrow> ('n \<Rightarrow> 'n) \<Rightarrow> nat \<Rightarrow> string list \<Rightarrow> error + 'n Note list" where
  "mapRows Number div127 index [] = Inr []"
| "mapRows Number div127 index (line # rest) =
     (case parseRow Number div127 index line of
        Inl e \<Rightarrow> Inl e
      | Inr note \<Rightarrow>
          (case mapRows Number div127 (Suc index) rest of
             Inl e \<Rightarrow> Inl e
           | Inr ns \<Rightarrow> Inr (note # ns)))"

definition dataRows :: "string \<Rightarrow> string list" where
  "dataRows csvContents = filter (\<lambda>line. length line > 0) (drop 1 (split CHR 0x0A csvContents))"

definition loadCSV ::
  "(string option \<Rightarrow> 'n) \<Rightarrow> ('n \<Rightarrow> 'n) \<Rightarrow> string \<Rightarrow> error + 'n Note list" where
  "loadCSV Number div127 csvContents = mapRows Number div127 0 (dataRows csvContents)"

section \<open>Observations and scenarios\<close>

text \<open>
  The playback a hit requests (\<^verbatim>\<open>playSound(note, samples)\<close> in \<^verbatim>\<open>handleKeyPress\<close>) and
  the playback a forced miss requests (\<^verbatim>\<open>playSound\<close> with the fallback duration in
  \<^verbatim>\<open>moveCircle\<close>).
\<close>

definition hitSound :: "rat Note \<Rightarrow> playback" where
  "hitSound n = \<lparr>pb_note = n, pb_supplied = None, pb_duration = soundDuration n None\<rparr>"

definition missSound :: "rat Note \<Rightarrow> playback" where
  "missSound n =
     \<lparr>pb_note = n, pb_supplied = Some (missDuration n),
      pb_duration = soundDuration n (Some (missDuration n))\<rparr>"

text \<open>
  The two tests of \<^verbatim>\<open>handleKeyPress\<close>: the note still has a circle in
  \<^verbatim>\<open>userPlayedNotesMap\<close>, and the circle's \<^verbatim>\<open>cy\<close> is in the target zone.
\<close>

definition pendingInZone :: "world \<Rightarrow> rat Note \<Rightarrow> bool" where
  "pendingInZone w note =
     (case userPlayedNotesMap w (id_note note) of
        None \<Rightarrow> False
      | Some c \<Rightarrow> isNoteInTargetZone (cy (circles w c)))"

text \<open>The notes of a lane that a press of its key finds in the zone, and whether
  \<^verbatim>\<open>samples\<close> has a sampler for a note.\<close>

definition inZone :: "world \<Rightarrow> Key \<Rightarrow> rat Note list" where
  "inZone w key = filter (pendingInZone w) (notesForKey w key)"

definition playable :: "world \<Rightarrow> rat Note \<Rightarrow> bool" where
  "playable w note \<longleftrightarrow> instrument note \<in> set (samples w)"

text \<open>The notes that come due in a run, in order.\<close>

fun dueNotes :: "event list \<Rightarrow> rat Note list" where
  "dueNotes [] = []"
| "dueNotes (NoteDue n # es) = n # dueNotes es"
| "dueNotes (e # es) = dueNotes es"

text \<open>
  A player note that starts at 5 s (the first row of a track), a second player note of
  the same lane that starts at \<^verbatim>\<open>5.055\<close> s, and a world in which both are in flight
  inside the target zone.
\<close>

definition scenarioNote :: "rat Note" where
  "scenarioNote =
     \<lparr>id_note = 0, user_played = True, instrument = ''piano'', velocity = 1, pitch = 60,
      startTime = 5, endTime = 11 / 2\<rparr>"

definition secondNote :: "rat Note" where
  "secondNote =
     \<lparr>id_note = 2, user_played = True, instrument = ''piano'', velocity = 1, pitch = 62,
      startTime = 711428003636183 / 140737488355328, endTime = 6\<rparr>"

definition twoInZone :: world where
  "twoInZone =
     initWorld\<lparr>userPlayedNotesMap := [0 \<mapsto> 0, 2 \<mapsto> 1],
       activeNotes := [KeyH \<mapsto> [scenarioNote, secondNote], KeyJ \<mapsto> [], KeyK \<mapsto> [], KeyL \<mapsto> []],
       circles := (\<lambda>c. noCircle)(0 := \<lparr>cy = 364, attached = True\<rparr>, 1 := \<lparr>cy = 354, attached = True\<rparr>),
       falls := (\<lambda>c. noFall)(0 := \<lparr>fnote = scenarioNote, accum_Y = 364, moving = True\<rparr>,
                                1 := \<lparr>fnote = secondNote, accum_Y = 354, moving = True\<rparr>),
       nextCircle := 2\<rparr>"

text \<open>
  The scenario note with an instrument that the page loads no sampler for, and the world
  in which it is in flight inside the target zone together with the second note.
\<close>

definition kazooNote :: "rat Note" where
  "kazooNote =
     \<lparr>id_note = 0, user_played = True, instrument = ''kazoo'', velocity = 1, pitch = 60,
      startTime = 5, endTime = 11 / 2\<rparr>"

definition kazooInZone :: world where
  "kazooInZone =
     initWorld\<lparr>userPlayedNotesMap := [0 \<mapsto> 0, 2 \<mapsto> 1],
       activeNotes := [KeyH \<mapsto> [kazooNote, secondNote], KeyJ \<mapsto> [], KeyK \<mapsto> [], KeyL \<mapsto> []],
       circles := (\<lambda>c. noCircle)(0 := \<lparr>cy = 364, attached = True\<rparr>, 1 := \<lparr>cy = 354, attached = True\<rparr>),
       falls := (\<lambda>c. noFall)(0 := \<lparr>fnote = kazooNote, accum_Y = 364, moving = True\<rparr>,
                                1 := \<lparr>fnote = secondNote, accum_Y = 354, moving = True\<rparr>),
       nextCircle := 2\<rparr>"

text \<open>
  The first 3325 ms of a track whose first row is the note \<open>n\<close>, starting at 5 s, and
  whose third row is the second note: \<open>n\<close> is spawned at 1500 ms and has fallen for five
  intervals when the second note is spawned at 1555 ms; the two intervals then take turns
  177 times, the last emission being due at 3325 ms.
\<close>

definition bothInFlight :: "rat Note \<Rightarrow> event list" where
  "bothInFlight n =
     NoteDue n # replicate 5 (Interval 0)
     @ NoteDue secondNote # concat (replicate 177 [Interval 0, Interval 1])"

text \<open>
  Two notes whose end times are the binary64 values of the track texts
  \<^verbatim>\<open>38.9207678\<close> and \<^verbatim>\<open>0.9730082872575087\<close>, and a background note.
\<close>

definition overNote :: "rat Note" where
  "overNote =
     \<lparr>id_note = 3, user_played = True, instrument = ''piano'', velocity = 1, pitch = 64,
      startTime = 77 / 2, endTime = 5477611105032925 / 140737488355328\<rparr>"

definition zeroNote :: "rat Note" where
  "zeroNote =
     \<lparr>id_note = 4, user_played = True, instrument = ''piano'', velocity = 1, pitch = 65,
      startTime = 1 / 2, endTime = 8764079519842641 / 9007199254740992\<rparr>"

definition autoNote :: "rat Note" where
  "autoNote =
     \<lparr>id_note = 1, user_played = False, instrument = ''violin'', velocity = 1, pitch = 48,
      startTime = 2, endTime = 5 / 2\<rparr>"

text \<open>A game state with a score above its high score.\<close>

definition scoredState :: State where
  "scoredState = initialState\<lparr>score := 5, highscore := 3\<rparr>"

text \<open>
  Schedules of the track that holds the scenario note alone.  With a press of
  \<^verbatim>\<open>KeyH\<close> at 3250 ms, the instant at which the 175th emission of the note's interval is
  due, the emission runs first in one and the press in the other.  With a press at
  3305 ms no other callback is due at the instant of the press.
\<close>

definition fallsOf :: "rat Note \<Rightarrow> nat \<Rightarrow> nat \<Rightarrow> (rat \<times> callback) list" where
  "fallsOf note a b = map (\<lambda>k. (emissionTime note k, Fall (id_note note))) [a..<b]"

definition fallFirst :: "(rat \<times> callback) list" where
  "fallFirst =
     (spawnTime scenarioNote, Due scenarioNote) # fallsOf scenarioNote 1 176
     @ (3250, Press ''KeyH'') # fallsOf scenarioNote 176 202"

definition pressFirst :: "(rat \<times> callback) list" where
  "pressFirst =
     (spawnTime scenarioNote, Due scenarioNote) # fallsOf scenarioNote 1 175
     @ (3250, Press ''KeyH'') # fallsOf scenarioNote 175 202"

definition clearPress :: "(rat \<times> callback) list" where
  "clearPress =
     (spawnTime scenarioNote, Due scenarioNote) # fallsOf scenarioNote 1 181
     @ (3305, Press ''KeyH'') # fallsOf scenarioNote 181 202"

text \<open>
  A track of two rows with an empty line between them, and a track whose second row has
  no comma.
\<close>

definition trackText :: string where
  "trackText =
     ''user_played,instrument_name,velocity,pitch,start,end'' @ [CHR 0x0A]
     @ ''True,piano,100,60,5.0,5.5'' @ [CHR 0x0A]
     @ [CHR 0x0A]
     @ ''False,violin,90,48,2.0,2.5'' @ [CHR 0x0A]"

definition brokenText :: string where
  "brokenText =
     ''user_played,instrument_name,velocity,pitch,start,end'' @ [CHR 0x0A]
     @ ''True,piano,100,60,5.0,5.5'' @ [CHR 0x0A]
     @ ''oops''"

definition shortText :: string where
  "shortText =
     ''user_played,instrument_name,velocity,pitch,start,end'' @ [CHR 0x0A]
     @ ''x,y''"

section \<open>Properties of rounding\<close>

lemma p2_less_iff: "(2::rat) powi a < 2 powi b \<longleftrightarrow> a < b"
proof
  assume l: "(2::rat) powi a < 2 powi b"
  show "a < b"
  proof (rule ccontr)
    assume "\<not> a < b"
    then have "b \<le> a" by simp
    then have "(2::rat) powi b \<le> 2 powi a" by (rule power_int_increasing) simp
    with l show False by simp
  qed
next
  assume "a < b"
  then show "(2::rat) powi a < 2 powi b" by (rule power_int_strict_increasing) simp
qed

lemma p2_le_iff: "(2::rat) powi a \<le> 2 powi b \<longleftrightarrow> a \<le> b"
  using p2_less_iff [of b a] by (simp add: not_less [symmetric])

lemma p2_add: "(2::rat) powi a * 2 powi b = 2 powi (a + b)"
  by (simp add: power_int_add)

lemma p2_neg: "0 \<le> k \<Longrightarrow> (2::rat) powi (- k) = 1 / 2 ^ nat k"
  by (simp add: power_int_minus_divide power_int_nonneg_exp)

lemma p2_pos: "0 \<le> k \<Longrightarrow> (2::rat) powi k = 2 ^ nat k"
  by (simp add: power_int_nonneg_exp)

lemma bitlen_pos: "0 < n \<Longrightarrow> 1 \<le> bitlen n"
  using bitlen_eq_zero_iff [of n] bitlen_nonneg [of n] by linarith

lemma expo_lower:
  assumes "0 < x"
  shows "2 powi (expo x) \<le> x"
proof (cases "1 \<le> x")
  case True
  define n where "n = \<lfloor>x\<rfloor>"
  have n: "0 < n" using True by (simp add: n_def)
  have b: "0 \<le> bitlen n - 1" using bitlen_pos [OF n] by simp
  have "(2::int) ^ nat (bitlen n - 1) \<le> n" using bitlen_bounds [OF n] by simp
  then have "(of_int ((2::int) ^ nat (bitlen n - 1)) :: rat) \<le> of_int n" by (simp only: of_int_le_iff)
  also have "\<dots> \<le> x" by (simp add: n_def)
  finally have "2 ^ nat (bitlen n - 1) \<le> x" by simp
  then show ?thesis using True p2_pos [OF b] by (simp add: expo_def n_def)
next
  case False
  define c where "c = \<lceil>1 / x\<rceil>"
  have x1: "1 < 1 / x" using False assms by simp
  then have c: "0 < c - 1" unfolding c_def by linarith
  define k where "k = bitlen (c - 1)"
  have k: "0 \<le> k" by (simp add: k_def bitlen_nonneg)
  have "c - 1 < 2 ^ nat k" using bitlen_bounds [OF c] by (simp add: k_def)
  then have "c \<le> 2 ^ nat k" by simp
  then have "(of_int c :: rat) \<le> of_int (2 ^ nat k)" by (simp only: of_int_le_iff)
  then have "1 / x \<le> 2 ^ nat k" unfolding c_def by (simp add: ceiling_le_iff)
  then have "1 / 2 ^ nat k \<le> x" using assms by (simp add: field_simps)
  then have "2 powi (- k) \<le> x" using p2_neg [OF k] by simp
  then show ?thesis using False by (simp add: expo_def c_def [symmetric] k_def [symmetric])
qed

lemma expo_upper:
  assumes "0 < x"
  shows "x < 2 powi (expo x + 1)"
proof (cases "1 \<le> x")
  case True
  define n where "n = \<lfloor>x\<rfloor>"
  have n: "0 < n" using True by (simp add: n_def)
  have b: "0 \<le> bitlen n" by (rule bitlen_nonneg)
  have "n + 1 \<le> 2 ^ nat (bitlen n)" using bitlen_bounds [OF n] by simp
  then have "(of_int (n + 1) :: rat) \<le> of_int (2 ^ nat (bitlen n))" by (simp only: of_int_le_iff)
  moreover have "x < of_int (n + 1)" unfolding n_def by linarith
  ultimately have "x < 2 ^ nat (bitlen n)" by simp
  then show ?thesis using True p2_pos [OF b] by (simp add: expo_def n_def)
next
  case False
  define c where "c = \<lceil>1 / x\<rceil>"
  have x1: "1 < 1 / x" using False assms by simp
  then have c: "0 < c - 1" unfolding c_def by linarith
  define k where "k = bitlen (c - 1)"
  have k: "0 \<le> k - 1" using bitlen_pos [OF c] by (simp add: k_def)
  have "2 ^ nat (k - 1) \<le> c - 1" using bitlen_bounds [OF c] by (simp add: k_def)
  then have "(of_int (2 ^ nat (k - 1)) :: rat) \<le> of_int (c - 1)" by (simp only: of_int_le_iff)
  moreover have "of_int (c - 1) < 1 / x" unfolding c_def by linarith
  ultimately have "2 ^ nat (k - 1) < 1 / x" by simp
  then have "x < 1 / 2 ^ nat (k - 1)" using assms by (simp add: field_simps)
  then have "x < 2 powi (- (k - 1))" using p2_neg [OF k] by simp
  then show ?thesis using False
    by (simp add: expo_def c_def [symmetric] k_def [symmetric])
qed

lemma expo_unique:
  assumes "2 powi e \<le> x" "x < 2 powi (e + 1)"
  shows "expo x = e"
proof -
  have "(0::rat) < 2 powi e" by simp
  then have x: "0 < x" using assms(1) by (rule less_le_trans)
  have "(2::rat) powi e < 2 powi (expo x + 1)" using assms(1) expo_upper [OF x] by simp
  then have "e < expo x + 1" by (simp only: p2_less_iff)
  moreover have "(2::rat) powi (expo x) < 2 powi (e + 1)" using assms(2) expo_lower [OF x] by simp
  then have "expo x < e + 1" by (simp only: p2_less_iff)
  ultimately show ?thesis by simp
qed

lemma rnd_even_of_int: "rnd_even (of_int n) = n"
  by (simp add: rnd_even_def)

lemma rnd_even_le: "r \<le> of_int n \<Longrightarrow> rnd_even r \<le> n"
  unfolding rnd_even_def Let_def by (auto; linarith)

lemma rnd_even_ge: "of_int n \<le> r \<Longrightarrow> n \<le> rnd_even r"
  unfolding rnd_even_def Let_def by (auto; linarith)


lemma ulp_pos: "0 < ulp x"
  by (simp add: ulp_def)

lemma fl_pos_eq: "0 < x \<Longrightarrow> fl x = of_int (rnd_even (x / ulp x)) * ulp x"
  by (simp add: fl_def ulp_def Let_def)

lemma fl_minus: "fl (- x) = - fl x"
  by (simp add: fl_def Let_def)

lemma mant_lower: assumes "0 < x" shows "2 ^ 52 \<le> x / ulp x"
proof -
  have "2 powi (expo x) / ulp x \<le> x / ulp x"
    using expo_lower [OF assms] ulp_pos [of x] by (simp add: divide_right_mono)
  moreover have "2 powi (expo x) / ulp x = (2::rat) powi 52"
    unfolding ulp_def by (simp flip: power_int_diff)
  ultimately show ?thesis by simp
qed

lemma mant_upper: assumes "0 < x" shows "x / ulp x < 2 ^ 53"
proof -
  have "x / ulp x < 2 powi (expo x + 1) / ulp x"
    using expo_upper [OF assms] ulp_pos [of x] by (simp add: divide_strict_right_mono)
  moreover have "2 powi (expo x + 1) / ulp x = (2::rat) powi 53"
    unfolding ulp_def by (simp flip: power_int_diff)
  ultimately show ?thesis by simp
qed

lemma fl_lower_p2: assumes "0 < x" shows "2 powi (expo x) \<le> fl x"
proof -
  have "(of_int (2 ^ 52) :: rat) \<le> x / ulp x" using mant_lower [OF assms] by simp
  then have "2 ^ 52 \<le> rnd_even (x / ulp x)" by (rule rnd_even_ge)
  then have "(of_int (2 ^ 52) :: rat) \<le> of_int (rnd_even (x / ulp x))" by (simp only: of_int_le_iff)
  then have "of_int (2 ^ 52) * ulp x \<le> fl x"
    using ulp_pos [of x] by (simp only: fl_pos_eq [OF assms] mult_le_cancel_right) simp
  moreover have "of_int (2 ^ 52) * ulp x = 2 powi (expo x)"
    using p2_add [of 52 "expo x - 52"] by (simp add: ulp_def)
  ultimately show ?thesis by simp
qed

lemma fl_upper_p2: assumes "0 < x" shows "fl x \<le> 2 powi (expo x + 1)"
proof -
  have "x / ulp x \<le> (of_int (2 ^ 53) :: rat)" using mant_upper [OF assms] by simp
  then have "rnd_even (x / ulp x) \<le> 2 ^ 53" by (rule rnd_even_le)
  then have "(of_int (rnd_even (x / ulp x)) :: rat) \<le> of_int (2 ^ 53)" by (simp only: of_int_le_iff)
  then have "fl x \<le> of_int (2 ^ 53) * ulp x"
    using ulp_pos [of x] by (simp only: fl_pos_eq [OF assms] mult_le_cancel_right) simp
  moreover have "of_int (2 ^ 53) * ulp x = 2 powi (expo x + 1)"
    using p2_add [of 53 "expo x - 52"] by (simp add: ulp_def add.commute)
  ultimately show ?thesis by simp
qed

lemma fl_pos: "0 < x \<Longrightarrow> 0 < fl x"
  using fl_lower_p2 [of x] less_le_trans [of 0 "2 powi (expo x)" "fl x"] by simp

lemma fl_nonneg:
  assumes "0 \<le> x"
  shows "0 \<le> fl x"
proof (cases "x = 0")
  case True
  then show ?thesis by (simp add: fl_def)
next
  case False
  with assms have "0 < x" by simp
  then have "0 < fl x" by (rule fl_pos)
  then show ?thesis by simp
qed

lemma expo_mono: assumes "0 < x" "x \<le> y" shows "expo x \<le> expo y"
proof -
  have "0 < y" using assms by simp
  then have "2 powi (expo x) < (2::rat) powi (expo y + 1)"
    using expo_lower [OF assms(1)] expo_upper [of y] assms(2) by simp
  then have "expo x < expo y + 1" by (simp only: p2_less_iff)
  then show ?thesis by simp
qed

text \<open>A value is representable when rounding leaves it unchanged.\<close>

lemma fl_le_repr:
  assumes x: "0 < x" and le: "x \<le> z" and z: "fl z = z"
  shows "fl x \<le> z"
proof -
  have z0: "0 < z" using x le by simp
  have "expo x \<le> expo z" using x le by (rule expo_mono)
  then consider "expo x = expo z" | "expo x + 1 \<le> expo z" by linarith
  then show ?thesis
  proof cases
    case 1
    then have u: "ulp x = ulp z" by (simp add: ulp_def)
    define N where "N = rnd_even (z / ulp z)"
    have zN: "z = of_int N * ulp z" using z fl_pos_eq [OF z0] by (simp add: N_def)
    then have "z / ulp z = of_int N" using ulp_pos [of z] by (simp add: field_simps)
    moreover have "x / ulp z \<le> z / ulp z" using le ulp_pos [of z] by (intro divide_right_mono) simp_all
    ultimately have "x / ulp x \<le> of_int N" using u by simp
    then have "rnd_even (x / ulp x) \<le> N" by (rule rnd_even_le)
    then have "(of_int (rnd_even (x / ulp x)) :: rat) \<le> of_int N" by (simp only: of_int_le_iff)
    then have "fl x \<le> of_int N * ulp x"
      using ulp_pos [of x] by (simp only: fl_pos_eq [OF x] mult_le_cancel_right) simp
    then show ?thesis using zN u by simp
  next
    case 2
    have "fl x \<le> 2 powi (expo x + 1)" using x by (rule fl_upper_p2)
    also have "\<dots> \<le> 2 powi (expo z)" using 2 by (simp only: p2_le_iff)
    also have "\<dots> \<le> z" using z0 by (rule expo_lower)
    finally show ?thesis .
  qed
qed

lemma fl_ge_repr:
  assumes z0: "0 < z" and le: "z \<le> x" and z: "fl z = z"
  shows "z \<le> fl x"
proof -
  have x: "0 < x" using z0 le by simp
  have "expo z \<le> expo x" using z0 le by (rule expo_mono)
  then consider "expo x = expo z" | "expo z + 1 \<le> expo x" by linarith
  then show ?thesis
  proof cases
    case 1
    then have u: "ulp x = ulp z" by (simp add: ulp_def)
    define N where "N = rnd_even (z / ulp z)"
    have zN: "z = of_int N * ulp z" using z fl_pos_eq [OF z0] by (simp add: N_def)
    then have "z / ulp z = of_int N" using ulp_pos [of z] by (simp add: field_simps)
    moreover have "z / ulp z \<le> x / ulp z" using le ulp_pos [of z] by (intro divide_right_mono) simp_all
    ultimately have "of_int N \<le> x / ulp x" using u by simp
    then have "N \<le> rnd_even (x / ulp x)" by (rule rnd_even_ge)
    then have "(of_int N :: rat) \<le> of_int (rnd_even (x / ulp x))" by (simp only: of_int_le_iff)
    then have "of_int N * ulp x \<le> fl x"
      using ulp_pos [of x] by (simp only: fl_pos_eq [OF x] mult_le_cancel_right) simp
    then show ?thesis using zN u by simp
  next
    case 2
    have "z < 2 powi (expo z + 1)" using z0 by (rule expo_upper)
    also have "\<dots> \<le> 2 powi (expo x)" using 2 by (simp only: p2_le_iff)
    also have "\<dots> \<le> fl x" using x by (rule fl_lower_p2)
    finally show ?thesis by simp
  qed
qed


lemma fl_exact:
  assumes x: "0 < x" and m: "x / ulp x = of_int n"
  shows "fl x = x"
proof -
  have "fl x = of_int n * ulp x" by (simp add: fl_pos_eq [OF x] m rnd_even_of_int)
  also have "\<dots> = x" using m ulp_pos [of x] by (simp add: field_simps)
  finally show ?thesis .
qed


text \<open>A value \<open>n * 2^e\<close> with \<open>n < 2^53\<close> is representable.\<close>

lemma fl_repr:
  assumes n: "0 < n" "n < 2 ^ 53"
  shows "fl (of_int n * 2 powi e) = of_int n * 2 powi e"
proof -
  let ?x = "of_int n * 2 powi e :: rat"
  have x: "0 < ?x" using n by simp
  have "(of_int n :: rat) < of_int (2 ^ 53)" using n(2) by (simp only: of_int_less_iff)
  then have "?x < of_int (2 ^ 53) * 2 powi e" by (intro mult_strict_right_mono) simp_all
  also have "\<dots> = 2 powi (53 + e)" using p2_add [of 53 e] by simp
  finally have "2 powi (expo ?x) < (2::rat) powi (53 + e)"
    using expo_lower [OF x] by simp
  then have "expo ?x < 53 + e" by (simp only: p2_less_iff)
  then have k: "0 \<le> e - (expo ?x - 52)" by simp
  have "?x / ulp ?x = of_int n * (2 powi e / 2 powi (expo ?x - 52))" by (simp add: ulp_def)
  also have "2 powi e / 2 powi (expo ?x - 52) = (2::rat) powi (e - (expo ?x - 52))"
    by (simp add: power_int_diff)
  also have "\<dots> = of_int (2 ^ nat (e - (expo ?x - 52)))" using p2_pos [OF k] by simp
  finally have "?x / ulp ?x = of_int (n * 2 ^ nat (e - (expo ?x - 52)))" by simp
  with x show ?thesis by (rule fl_exact)
qed

lemma fl_of_int_exact:
  assumes "\<bar>n\<bar> \<le> 2 ^ 53"
  shows "fl (of_int n) = of_int n"
proof -
  have pos: "fl (of_int k) = of_int k" if "0 < k" "k \<le> 2 ^ 53" for k :: int
  proof (cases "k = 2 ^ 53")
    case True
    have "fl (of_int (2 ^ 52) * 2 powi 1) = of_int (2 ^ 52) * 2 powi 1" by (rule fl_repr) simp_all
    then show ?thesis using True by simp
  next
    case False
    with that have "k < 2 ^ 53" by simp
    with that(1) have "fl (of_int k * 2 powi 0) = of_int k * 2 powi 0" by (rule fl_repr)
    then show ?thesis by simp
  qed
  consider "n = 0" | "0 < n" | "0 < - n" by linarith
  then show ?thesis
  proof cases
    case 1 then show ?thesis by (simp add: fl_def)
  next
    case 2 then show ?thesis using assms by (intro pos) simp_all
  next
    case 3
    then have "fl (of_int (- n)) = of_int (- n)" using assms by (intro pos) simp_all
    then show ?thesis by (simp add: fl_minus)
  qed
qed

text \<open>From \<open>2^53\<close> on, every value of the format is an even integer.\<close>

lemma fl_even_big:
  assumes "2 ^ 53 \<le> x"
  shows "\<exists>k. 0 \<le> k \<and> fl x = of_int (2 * k)"
proof -
  have x: "0 < x" using assms by (rule less_le_trans [rotated]) simp
  have "(2::rat) powi 53 < 2 powi (expo x + 1)" using assms expo_upper [OF x] by simp
  then have "53 < expo x + 1" by (simp only: p2_less_iff)
  then have k: "0 \<le> expo x - 53" by simp
  have "ulp x = 2 powi (1 + (expo x - 53))" by (simp add: ulp_def)
  also have "\<dots> = 2 * 2 powi (expo x - 53)" using p2_add [of 1 "expo x - 53"] by simp
  also have "\<dots> = of_int (2 * 2 ^ nat (expo x - 53))" using p2_pos [OF k] by simp
  finally have u: "ulp x = of_int (2 * 2 ^ nat (expo x - 53))" .
  have "0 \<le> rnd_even (x / ulp x)"
    using x ulp_pos [of x] by (intro rnd_even_ge) simp
  moreover have "fl x = of_int (2 * (rnd_even (x / ulp x) * 2 ^ nat (expo x - 53)))"
    by (simp add: fl_pos_eq [OF x] u)
  ultimately show ?thesis by (intro exI [of _ "rnd_even (x / ulp x) * 2 ^ nat (expo x - 53)"]) simp
qed

text \<open>Rounding never crosses a representable value.\<close>

lemma fl_le:
  assumes le: "x \<le> z" and z: "fl z = z"
  shows "fl x \<le> z"
proof -
  consider "0 < x" | "x \<le> 0" "0 \<le> z" | "x < 0" "z < 0" using le by linarith
  then show ?thesis
  proof cases
    case 1 then show ?thesis using le z by (rule fl_le_repr)
  next
    case 2
    have "0 \<le> fl (- x)" using 2(1) by (intro fl_nonneg) simp
    then show ?thesis using 2(2) by (simp add: fl_minus)
  next
    case 3
    have "- z \<le> fl (- x)" using 3 le z by (intro fl_ge_repr) (simp_all add: fl_minus)
    then show ?thesis by (simp add: fl_minus)
  qed
qed

lemma fl_ge:
  assumes le: "z \<le> x" and z: "fl z = z"
  shows "z \<le> fl x"
proof -
  have "fl (- x) \<le> - z" using le z by (intro fl_le) (simp_all add: fl_minus)
  then show ?thesis by (simp add: fl_minus)
qed

lemma rnd_even_eq:
  assumes "of_int n - 1 / 2 < r" "r < of_int n + 1 / 2"
  shows "rnd_even r = n"
proof (cases "of_int n \<le> r")
  case True
  then have "\<lfloor>r\<rfloor> = n" using assms(2) by linarith
  then show ?thesis using assms(2) by (simp add: rnd_even_def)
next
  case False
  then have "\<lfloor>r\<rfloor> = n - 1" using assms(1) by linarith
  then show ?thesis using assms(1) by (simp add: rnd_even_def)
qed

text \<open>Rounding a given value, away from a tie: the exponent and the mantissa are supplied.\<close>

lemma fl_eval:
  assumes "2 powi e \<le> x" "x < 2 powi (e + 1)"
    and "of_int n - 1 / 2 < x / 2 powi (e - 52)" "x / 2 powi (e - 52) < of_int n + 1 / 2"
  shows "fl x = of_int n * 2 powi (e - 52)"
proof -
  have "(0::rat) < 2 powi e" by simp
  then have x: "0 < x" using assms(1) by (rule less_le_trans)
  have e: "expo x = e" using assms(1,2) by (rule expo_unique)
  then have "rnd_even (x / ulp x) = n" using assms(3,4) by (intro rnd_even_eq) (simp_all add: ulp_def)
  then show ?thesis using e by (simp add: fl_pos_eq [OF x] ulp_def)
qed

section \<open>The hash of a note id\<close>

lemma jmod_of_int:
  assumes "0 \<le> s"
  shows "jmod (of_int s) RNG_m = of_int (s mod 2147483648)"
proof -
  have "\<lfloor>(of_int s :: rat) / of_int 2147483648\<rfloor> = s div 2147483648"
    by (rule floor_divide_of_int_eq)
  then have "trunc (of_int s / RNG_m) = s div 2147483648"
    using assms by (simp add: trunc_def RNG_m_def)
  then have "jmod (of_int s) RNG_m = of_int (s - 2147483648 * (s div 2147483648))"
    by (simp add: jmod_def RNG_m_def)
  also have "s - 2147483648 * (s div 2147483648) = s mod 2147483648"
    by (simp add: minus_mult_div_eq_mod)
  finally show ?thesis .
qed

lemma lcg_not_top:
  fixes i :: int
  assumes i: "0 \<le> i" and b: "1103515245 * i + 12345 \<le> 2 ^ 53"
  shows "(1103515245 * i + 12345) mod 2147483648 \<noteq> 2147483647"
proof
  assume eq: "(1103515245 * i + 12345) mod 2147483648 = 2147483647"
  have "(1857678181 * ((1103515245 * i + 12345) mod 2147483648)) mod 2147483648 = 289805467"
    by (simp add: eq)
  then have "(1857678181 * (1103515245 * i + 12345)) mod 2147483648 = 289805467"
    by (simp only: mod_mult_right_eq)
  moreover have "1857678181 * (1103515245 * i + 12345)
      = (i + 22933037144445) + 2147483648 * (954594553 * i)" by simp
  ultimately have "((i + 22933037144445) + 2147483648 * (954594553 * i)) mod 2147483648 = 289805467"
    by simp
  then have "(i + 22933037144445) mod 2147483648 = 289805467"
    by (simp only: mod_mult_self2)
  then have "((i + 22933037144445) mod 2147483648 - 22933037144445) mod 2147483648 = 230538014"
    by simp
  then have "(i + 22933037144445 - 22933037144445) mod 2147483648 = 230538014"
    by (simp only: mod_diff_left_eq)
  then have "i mod 2147483648 = 230538014" by simp
  moreover have "i < 2147483648" using b i by simp
  ultimately have "i = 230538014" using i by simp
  with b show False by simp
qed

lemma even_mod_m: "(2 * k) mod 2147483648 \<noteq> (2147483647::int)"
proof
  assume "(2 * k) mod 2147483648 = (2147483647::int)"
  then have "((2 * k) mod 2147483648) mod 2 = 1" by simp
  then have "(2 * k) mod 2 = 1" by (simp only: mod_mod_cancel [of 2 2147483648 "2 * k", simplified])
  then show False by simp
qed

text \<open>The hash of a note id is an integer between \<open>0\<close> and \<open>m - 2\<close>.\<close>

lemma hash_id:
  fixes i :: nat
  shows "\<exists>r. hash (of_nat i) = of_int r \<and> 0 \<le> r \<and> r \<le> 2147483646"
proof -
  define P where "P = 1103515245 * int i"
  have P0: "0 \<le> P" by (simp add: P_def)
  have mul: "RNG_a * of_nat i = of_int P" by (simp add: RNG_a_def P_def)
  have fin: "\<exists>r. jmod (of_int s) RNG_m = of_int r \<and> 0 \<le> r \<and> r \<le> 2147483646"
    if "0 \<le> s" "s mod 2147483648 \<noteq> 2147483647" for s :: int
  proof -
    have "s mod 2147483648 < 2147483648" by simp
    with that(2) have "s mod 2147483648 \<le> 2147483646" by linarith
    then show ?thesis using jmod_of_int [OF that(1)] by (intro exI [of _ "s mod 2147483648"]) simp
  qed
  show ?thesis
  proof (cases "P + 12345 \<le> 2 ^ 53")
    case True
    have "fl (of_int P) = of_int P" using True P0 by (intro fl_of_int_exact) simp
    moreover have "fl (of_int (P + 12345)) = of_int (P + 12345)"
      using True P0 by (intro fl_of_int_exact) simp
    ultimately have "jadd (jmul RNG_a (of_nat i)) RNG_c = of_int (P + 12345)"
      by (simp add: jadd_def jmul_def mul RNG_c_def)
    moreover have "(P + 12345) mod 2147483648 \<noteq> 2147483647"
      using True unfolding P_def by (intro lcg_not_top) simp_all
    ultimately show ?thesis using fin [of "P + 12345"] P0 by (auto simp: hash_def)
  next
    case False
    have "\<exists>k. 0 \<le> k \<and> jadd (jmul RNG_a (of_nat i)) RNG_c = of_int (2 * k)"
    proof (cases "P \<le> 2 ^ 53")
      case True
      have "fl (of_int P) = of_int P" using True P0 by (intro fl_of_int_exact) simp
      then have "jadd (jmul RNG_a (of_nat i)) RNG_c = fl (of_int (P + 12345))"
        by (simp add: jadd_def jmul_def mul RNG_c_def)
      moreover have "(2 ^ 53 :: rat) \<le> of_int (P + 12345)"
      proof -
        have "(2 ^ 53 :: int) \<le> P + 12345" using False by simp
        then have "(of_int (2 ^ 53) :: rat) \<le> of_int (P + 12345)" by (simp only: of_int_le_iff)
        then show ?thesis by simp
      qed
      ultimately show ?thesis using fl_even_big [of "of_int (P + 12345)"] by simp
    next
      case False
      then have "(2 ^ 53 :: int) \<le> P" by simp
      then have "(of_int (2 ^ 53) :: rat) \<le> of_int P" by (simp only: of_int_le_iff)
      then have big: "(2 ^ 53 :: rat) \<le> of_int P" by simp
      then obtain k where k: "0 \<le> k" "fl (of_int P) = of_int (2 * k)"
        using fl_even_big [of "of_int P"] by auto
      have "fl (2 ^ 53) = (2 ^ 53 :: rat)" using fl_of_int_exact [of "2 ^ 53"] by simp
      with big have "(2 ^ 53 :: rat) \<le> fl (of_int P)" by (intro fl_ge) simp_all
      then have "(2 ^ 53 :: rat) \<le> of_int (2 * k + 12345)" using k by simp
      then obtain k' where "0 \<le> k'" "fl (of_int (2 * k + 12345)) = of_int (2 * k')"
        using fl_even_big [of "of_int (2 * k + 12345)"] by auto
      then show ?thesis using k by (intro exI [of _ k']) (simp add: jadd_def jmul_def mul RNG_c_def)
    qed
    then obtain k where k: "0 \<le> k" "jadd (jmul RNG_a (of_nat i)) RNG_c = of_int (2 * k)" by auto
    show ?thesis using fin [of "2 * k"] k even_mod_m [of k] by (auto simp: hash_def)
  qed
qed

lemma fl_0: "fl 0 = 0"
  by (simp add: fl_def)

lemma fl_num_consts:
  "fl 2147483647 = 2147483647"
  "fl 4294967292 = 4294967292"
  "fl (- 1) = - 1"
  "fl (2147483647 / 1073741824) = 2147483647 / 1073741824"
  "fl (1073741823 / 1073741824) = 1073741823 / 1073741824"
  "fl (2147483647 / 2147483648) = 2147483647 / 2147483648"
  "fl (2147483647 / 536870912) = 2147483647 / 536870912"
  using fl_of_int_exact [of 2147483647] fl_of_int_exact [of 4294967292] fl_of_int_exact [of "- 1"]
    fl_repr [of 2147483647 "- 30"] fl_repr [of 1073741823 "- 30"]
    fl_repr [of 2147483647 "- 31"] fl_repr [of 2147483647 "- 29"]
  by simp_all

lemma RNG_m_minus_1: "jsub RNG_m 1 = 2147483647"
  by (simp add: jsub_def RNG_m_def fl_num_consts)

lemma scale_upper:
  assumes "h \<le> 2147483646"
  shows "scale h \<le> 1073741823 / 1073741824"
proof -
  have "2 * h \<le> 4294967292" using assms by simp
  then have "fl (2 * h) \<le> 4294967292" by (rule fl_le) (rule fl_num_consts)
  then have "fl (2 * h) / 2147483647 \<le> 2147483647 / 1073741824" by simp
  then have "fl (fl (2 * h) / 2147483647) \<le> 2147483647 / 1073741824"
    by (rule fl_le) (rule fl_num_consts)
  then have "fl (fl (2 * h) / 2147483647) - 1 \<le> 1073741823 / 1073741824" by simp
  then have "fl (fl (fl (2 * h) / 2147483647) - 1) \<le> 1073741823 / 1073741824"
    by (rule fl_le) (rule fl_num_consts)
  then show ?thesis by (simp add: scale_def jsub_def jdiv_def jmul_def RNG_m_minus_1 [unfolded jsub_def])
qed

lemma scale_lower:
  assumes "0 \<le> h"
  shows "- 1 \<le> scale h"
proof -
  have "0 \<le> fl (2 * h)" using assms by (intro fl_nonneg) simp
  then have "0 \<le> fl (fl (2 * h) / 2147483647)" by (intro fl_nonneg) simp
  then have "- 1 \<le> fl (fl (2 * h) / 2147483647) - 1" by simp
  then have "- 1 \<le> fl (fl (fl (2 * h) / 2147483647) - 1)"
    by (rule fl_ge) (rule fl_num_consts)
  then show ?thesis by (simp add: scale_def jsub_def jdiv_def jmul_def RNG_m_minus_1 [unfolded jsub_def])
qed

lemma scale_nonpos:
  assumes "h \<le> 0"
  shows "scale h \<le> - 1"
proof -
  have "fl (2 * h) \<le> 0" using assms by (intro fl_le) (simp_all add: fl_0)
  then have "fl (2 * h) / 2147483647 \<le> 0" by (simp add: divide_le_0_iff)
  then have "fl (fl (2 * h) / 2147483647) \<le> 0" by (intro fl_le) (simp_all add: fl_0)
  then have "fl (fl (2 * h) / 2147483647) - 1 \<le> - 1" by simp
  then have "fl (fl (fl (2 * h) / 2147483647) - 1) \<le> - 1"
    by (rule fl_le) (rule fl_num_consts)
  then show ?thesis by (simp add: scale_def jsub_def jdiv_def jmul_def RNG_m_minus_1 [unfolded jsub_def])
qed

text \<open>The index \<open>getCx\<close> computes from a scaled hash.\<close>

lemma index_upper:
  assumes "s \<le> 1073741823 / 1073741824"
  shows "\<lfloor>jmul (jdiv (jadd s 1) 2) 4\<rfloor> \<le> 3"
proof -
  have "s + 1 \<le> 2147483647 / 1073741824" using assms by simp
  then have "fl (s + 1) \<le> 2147483647 / 1073741824" by (rule fl_le) (rule fl_num_consts)
  then have "fl (s + 1) / 2 \<le> 2147483647 / 2147483648" by simp
  then have "fl (fl (s + 1) / 2) \<le> 2147483647 / 2147483648" by (rule fl_le) (rule fl_num_consts)
  then have "fl (fl (s + 1) / 2) * 4 \<le> 2147483647 / 536870912" by simp
  then have "fl (fl (fl (s + 1) / 2) * 4) \<le> 2147483647 / 536870912"
    by (rule fl_le) (rule fl_num_consts)
  then have "fl (fl (fl (s + 1) / 2) * 4) < 4" by simp
  then have "\<lfloor>fl (fl (fl (s + 1) / 2) * 4)\<rfloor> < 4" by (simp add: floor_less_iff)
  then show ?thesis by (simp add: jmul_def jdiv_def jadd_def)
qed

lemma index_lower:
  assumes "- 1 \<le> s"
  shows "0 \<le> \<lfloor>jmul (jdiv (jadd s 1) 2) 4\<rfloor>"
proof -
  have "0 \<le> fl (s + 1)" using assms by (intro fl_nonneg) simp
  then have "0 \<le> fl (fl (s + 1) / 2)" by (intro fl_nonneg) simp
  then have "0 \<le> fl (fl (fl (s + 1) / 2) * 4)" by (intro fl_nonneg) simp
  then show ?thesis by (simp add: jmul_def jdiv_def jadd_def)
qed

lemma jmod_nonpos:
  assumes "x \<le> 0"
  shows "jmod x RNG_m \<le> 0"
proof (cases "x = 0")
  case True
  then show ?thesis by (simp add: jmod_def trunc_def)
next
  case False
  with assms have neg: "x / 2147483648 < 0" by simp
  have "of_int \<lceil>x / 2147483648\<rceil> < x / 2147483648 + 1" by linarith
  then have "2147483648 * of_int \<lceil>x / 2147483648\<rceil> \<ge> x" by linarith
  then show ?thesis using neg by (simp add: jmod_def trunc_def RNG_m_def)
qed

lemma hash_neg:
  fixes seed :: int
  assumes "seed < 0"
  shows "hash (of_int seed) \<le> 0"
proof -
  have "seed \<le> - 1" using assms by simp
  then have "(of_int seed :: rat) \<le> of_int (- 1)" by (simp only: of_int_le_iff)
  then have "RNG_a * of_int seed \<le> 0" by (simp add: RNG_a_def)
  then have "fl (RNG_a * of_int seed) \<le> 0" by (intro fl_le) (simp_all add: fl_0)
  moreover have "(of_int seed :: rat) \<le> - 1" using \<open>(of_int seed :: rat) \<le> of_int (- 1)\<close> by simp
  then have "RNG_a * of_int seed \<le> - 1103515245" by (simp add: RNG_a_def)
  then have "fl (RNG_a * of_int seed) \<le> - 1103515245"
    using fl_of_int_exact [of "- 1103515245"] by (intro fl_le) simp_all
  then have "fl (RNG_a * of_int seed) + RNG_c \<le> 0" by (simp add: RNG_c_def)
  then have "fl (fl (RNG_a * of_int seed) + RNG_c) \<le> 0" by (intro fl_le) (simp_all add: fl_0)
  then show ?thesis unfolding hash_def jadd_def jmul_def by (rule jmod_nonpos)
qed

lemma scale_hash_int:
  fixes seed :: int
  shows "scale (hash (of_int seed)) \<le> 1073741823 / 1073741824"
proof (cases "0 \<le> seed")
  case True
  obtain r where r: "hash (of_nat (nat seed)) = of_int r" "r \<le> 2147483646"
    using hash_id [of "nat seed"] by auto
  have "(of_int r :: rat) \<le> of_int 2147483646" using r(2) by (simp only: of_int_le_iff)
  then have "hash (of_int seed) \<le> 2147483646" using r(1) True by simp
  then show ?thesis by (rule scale_upper)
next
  case False
  then have "hash (of_int seed) \<le> 0" by (intro hash_neg) simp
  then have "hash (of_int seed) \<le> 2147483646" by simp
  then show ?thesis by (rule scale_upper)
qed

lemma cxIndex_int_upper:
  fixes seed :: int
  shows "cxIndex (of_int seed) \<le> 3"
  unfolding cxIndex_def using scale_hash_int by (rule index_upper)

lemma cxIndex_id:
  fixes i :: nat
  shows "0 \<le> cxIndex (of_nat i) \<and> cxIndex (of_nat i) \<le> 3"
proof -
  obtain r where r: "hash (of_nat i) = of_int r" "0 \<le> r"
    using hash_id [of i] by auto
  have "(of_int 0 :: rat) \<le> of_int r" using r(2) by (simp only: of_int_le_iff)
  then have "- 1 \<le> scale (hash (of_nat i))" using r(1) by (intro scale_lower) simp
  then have "0 \<le> cxIndex (of_nat i)" unfolding cxIndex_def by (rule index_lower)
  moreover have "cxIndex (of_nat i) \<le> 3" using cxIndex_int_upper [of "int i"] by simp
  ultimately show ?thesis ..
qed

lemma getCx_id:
  fixes i :: nat
  shows "getCx (of_nat i) = Some 20 \<or> getCx (of_nat i) = Some 40
       \<or> getCx (of_nat i) = Some 60 \<or> getCx (of_nat i) = Some 80"
proof -
  have "0 \<le> cxIndex (of_nat i)" "cxIndex (of_nat i) \<le> 3" using cxIndex_id [of i] by simp_all
  then have "cxIndex (of_nat i) = 0 \<or> cxIndex (of_nat i) = 1 \<or> cxIndex (of_nat i) = 2
      \<or> cxIndex (of_nat i) = 3" by linarith
  then show ?thesis by (auto simp: getCx_def cxValues_def)
qed

text \<open>
  In exact integer arithmetic the seed 230538014 solves \<open>a * seed + c = m - 1 (mod m)\<close>.
  The program multiplies in binary64: the product exceeds \<open>2^53\<close>, is rounded to a
  multiple of 32, and the hash comes out as 0.
\<close>

lemma hash_big_seed: "hash 230538014 = 0"
proof -
  have "fl 254402213001023430 = 254402213001023424"
    using fl_eval [of 57 254402213001023430 7950069156281982] by simp
  moreover have "fl 254402213001035769 = 254402213001035776"
    using fl_eval [of 57 254402213001035769 7950069156282368] by simp
  moreover have "jmod 254402213001035776 RNG_m = 0"
    using jmod_of_int [of 254402213001035776] by simp
  ultimately show ?thesis by (simp add: hash_def jadd_def jmul_def RNG_a_def RNG_c_def)
qed

lemma scale_0: "scale 0 = - 1"
  by (simp add: scale_def jsub_def jdiv_def jmul_def fl_0 fl_num_consts)

lemma cxIndex_of_minus_1: "\<lfloor>jmul (jdiv (jadd (- 1) 1) 2) 4\<rfloor> = 0"
  by (simp add: jmul_def jdiv_def jadd_def fl_0)

lemma getCx_big_seed: "getCx 230538014 = Some 20"
  by (simp add: getCx_def cxIndex_def hash_big_seed scale_0 cxIndex_of_minus_1 cxValues_def)

text \<open>A negative seed reads outside \<open>cxValues\<close>: the remainder keeps the sign of the dividend.\<close>

lemma getCx_minus_one: "getCx (- 1) = None"
proof -
  have 1: "fl (- 1103515245) = - 1103515245" using fl_of_int_exact [of "- 1103515245"] by simp
  have 2: "fl (- 1103502900) = - 1103502900" using fl_of_int_exact [of "- 1103502900"] by simp
  have "\<lceil>- (1103502900::rat) / 2147483648\<rceil> = 0" by (simp add: ceiling_eq_iff)
  then have 3: "jmod (- 1103502900) RNG_m = - 1103502900"
    by (simp add: jmod_def trunc_def RNG_m_def)
  have h: "hash (- 1) = - 1103502900"
    by (simp add: hash_def jadd_def jmul_def RNG_a_def RNG_c_def 1 2 3)
  have m2: "fl (- 2) = - 2" using fl_of_int_exact [of "- 2"] by simp
  have mh: "fl (- (1 / 2)) = - (1 / 2)" using fl_repr [of 1 "- 1"] by (simp add: fl_minus)
  have "fl (2 * - 1103502900) \<le> - 2207005800"
    using fl_of_int_exact [of "- 2207005800"] by simp
  then have "fl (2 * - 1103502900) / 2147483647 \<le> - 1" by simp
  then have "fl (fl (2 * - 1103502900) / 2147483647) \<le> - 1" by (rule fl_le) (rule fl_num_consts)
  then have "fl (fl (2 * - 1103502900) / 2147483647) - 1 \<le> - 2" by simp
  then have "fl (fl (fl (2 * - 1103502900) / 2147483647) - 1) \<le> - 2" using m2 by (rule fl_le)
  then have s: "scale (- 1103502900) \<le> - 2"
    by (simp add: scale_def jsub_def jdiv_def jmul_def RNG_m_minus_1 [unfolded jsub_def])
  then have "scale (- 1103502900) + 1 \<le> - 1" by simp
  then have "fl (scale (- 1103502900) + 1) \<le> - 1" by (rule fl_le) (rule fl_num_consts)
  then have "fl (scale (- 1103502900) + 1) / 2 \<le> - (1 / 2)" by simp
  then have "fl (fl (scale (- 1103502900) + 1) / 2) \<le> - (1 / 2)" using mh by (rule fl_le)
  then have "fl (fl (scale (- 1103502900) + 1) / 2) * 4 \<le> - 2" by simp
  then have "fl (fl (fl (scale (- 1103502900) + 1) / 2) * 4) \<le> - 2" using m2 by (rule fl_le)
  then have "\<lfloor>fl (fl (fl (scale (- 1103502900) + 1) / 2) * 4)\<rfloor> < 0" by (simp add: floor_less_iff)
  then have "cxIndex (- 1) < 0" by (simp add: cxIndex_def h jmul_def jdiv_def jadd_def)
  then show ?thesis by (simp add: getCx_def)
qed


section \<open>Lanes\<close>

lemma activeNotes_moveCircle [simp]: "activeNotes (moveCircle c n w) = activeNotes w"
  by (simp add: moveCircle_def)

lemma activeNotes_addNoteToKey:
  "activeNotes (addNoteToKey key n w) k =
     (if k = key then map_option (\<lambda>ns. ns @ [n]) (activeNotes w k) else activeNotes w k)"
  by (simp add: addNoteToKey_def split: option.splits)

lemma createCircleNote_lane:
  "\<exists>key. \<forall>k. activeNotes (createCircleNote n w) k =
     (if k = key then map_option (\<lambda>ns. ns @ [n]) (activeNotes w k) else activeNotes w k)"
proof -
  let ?P = "\<lambda>key. \<forall>k. activeNotes (createCircleNote n w) k =
     (if k = key then map_option (\<lambda>ns. ns @ [n]) (activeNotes w k) else activeNotes w k)"
  consider "getCx (of_nat (id_note n)) = Some 20" | "getCx (of_nat (id_note n)) = Some 40"
    | "getCx (of_nat (id_note n)) = Some 60" | "getCx (of_nat (id_note n)) = Some 80"
    using getCx_id [of "id_note n"] by blast
  then show ?thesis
  proof cases
    case 1
    then have "?P KeyH" by (simp add: createCircleNote_def Let_def activeNotes_addNoteToKey)
    then show ?thesis ..
  next
    case 2
    then have "?P KeyJ" by (simp add: createCircleNote_def Let_def activeNotes_addNoteToKey)
    then show ?thesis ..
  next
    case 3
    then have "?P KeyK" by (simp add: createCircleNote_def Let_def activeNotes_addNoteToKey)
    then show ?thesis ..
  next
    case 4
    then have "?P KeyL" by (simp add: createCircleNote_def Let_def activeNotes_addNoteToKey)
    then show ?thesis ..
  qed
qed


section \<open>The event loop: the game state\<close>

lemma report_Inr [simp]: "report (Inr w) = w"
  by (simp add: report_def)

lemma report_Inl [simp]: "report (Inl (e, w)) = w\<lparr>uncaught := uncaught w @ [e]\<rparr>"
  by (simp add: report_def)

lemma playSound_loaded:
  "instrument n \<in> set (samples w) \<Longrightarrow>
   playSound n d w = Inr (w\<lparr>sounds := sounds w @
      [\<lparr>pb_note = n, pb_supplied = d, pb_duration = soundDuration n d\<rparr>]\<rparr>)"
  by (simp add: playSound_def)

lemma playSound_missing:
  "instrument n \<notin> set (samples w) \<Longrightarrow> playSound n d w = Inl (TypeError, w)"
  by (simp add: playSound_def)

text \<open>
  What every call of a throwing callback on a list leaves unchanged, \<^verbatim>\<open>forEach\<close> leaves
  unchanged, whether it returns or throws.
\<close>

lemma forEach_frame:
  assumes "\<And>x v. F (report (f x v)) = F v"
  shows "F (report (forEach f xs w)) = F w"
proof (induction xs arbitrary: w)
  case Nil
  then show ?case by simp
next
  case (Cons x xs)
  show ?case
  proof (cases "f x w")
    case (Inl thrown)
    then show ?thesis using assms [of x w] by simp
  next
    case (Inr v)
    then have "F v = F w" using assms [of x w] by simp
    then show ?thesis using Inr Cons.IH [of v] by simp
  qed
qed

lemma st_playSound [simp]: "st (report (playSound n d w)) = st w"
  by (simp add: playSound_def)

lemma st_addNoteToKey [simp]: "st (addNoteToKey key n w) = st w"
  by (simp add: addNoteToKey_def split: option.splits)

lemma st_createCircleNote [simp]: "st (createCircleNote n w) = st w"
  by (simp add: createCircleNote_def moveCircle_def Let_def)

lemma st_moveStep [simp]: "st (report (moveStep c w)) = st w"
  by (simp add: moveStep_def playSound_def Let_def)

lemma st_handleKeyPress [simp]: "st (report (handleKeyPress key n w)) = st w"
  by (simp add: handleKeyPress_def playSound_def Let_def split: option.splits)

lemma st_keydown [simp]: "st (report (keydown code w)) = st w"
  by (simp add: keydown_def forEach_frame split: option.splits)

lemma st_emitNote [simp]: "st (report (emitNote n w)) = st w"
  by (simp add: emitNote_def)

lemma st_clockTick [simp]: "st (clockTick w) = initialState"
  by (simp add: clockTick_def scanState_def)

lemma st_step: "st (step w e) = (case e of Tick \<Rightarrow> initialState | _ \<Rightarrow> st w)"
  by (cases e) simp_all

lemma run_Nil [simp]: "run w [] = w"
  by (simp add: run_def)

lemma run_Cons: "run w (e # es) = run (step w e) es"
  by (simp add: run_def)

lemma run_append: "run w (es @ es') = run (run w es) es'"
  by (simp add: run_def)

lemma run_snoc: "run w (es @ [e]) = step (run w es) e"
  by (simp add: run_def)

lemma st_run: "st w = initialState \<Longrightarrow> st (run w es) = initialState"
  by (induction es arbitrary: w) (simp_all add: run_Cons st_step split: event.splits)

lemma st_run_init [simp]: "st (run initWorld es) = initialState"
  by (rule st_run) (simp add: initWorld_def)

lemma st_initWorld [simp]: "st initWorld = initialState"
  by (simp add: initWorld_def)

section \<open>The samplers never change\<close>

lemma samples_moveStep [simp]: "samples (report (moveStep c w)) = samples w"
  by (simp add: moveStep_def playSound_def Let_def)

lemma samples_handleKeyPress [simp]: "samples (report (handleKeyPress key n w)) = samples w"
  by (simp add: handleKeyPress_def playSound_def Let_def split: option.splits)

lemma samples_keydown [simp]: "samples (report (keydown code w)) = samples w"
  by (simp add: keydown_def forEach_frame split: option.splits)

lemma samples_addNoteToKey [simp]: "samples (addNoteToKey key n w) = samples w"
  by (simp add: addNoteToKey_def split: option.splits)

lemma samples_createCircleNote [simp]: "samples (createCircleNote n w) = samples w"
  by (simp add: createCircleNote_def moveCircle_def Let_def)

lemma samples_emitNote [simp]: "samples (report (emitNote n w)) = samples w"
  by (simp add: emitNote_def playSound_def)

lemma samples_step [simp]: "samples (step w e) = samples w"
  by (cases e) (simp_all add: clockTick_def)

lemma samples_run [simp]: "samples (run w es) = samples w"
  by (induction es arbitrary: w) (simp_all add: run_Cons)

lemma samples_initWorld [simp]: "samples initWorld = loadedInstruments"
  by (simp add: initWorld_def)

lemma piano_loaded [simp]: "''piano'' \<in> set loadedInstruments"
  by (simp add: loadedInstruments_def)

section \<open>A note in flight\<close>

lemma hash_0: "hash 0 = 12345"
proof -
  have "fl 12345 = 12345" using fl_of_int_exact [of 12345] by simp
  moreover have "jmod 12345 RNG_m = 12345" using jmod_of_int [of 12345] by simp
  ultimately show ?thesis by (simp add: hash_def jadd_def jmul_def RNG_c_def fl_0)
qed

lemma scale_12345: "scale 12345 \<le> - 32767 / 32768"
proof -
  have e: "fl 24690 = 24690" using fl_of_int_exact [of 24690] by simp
  have r1: "fl (1 / 32768) = 1 / 32768" using fl_repr [of 1 "- 15"] by simp
  have r2: "fl (- (32767 / 32768)) = - (32767 / 32768)"
    using fl_repr [of 32767 "- 15"] by (simp add: fl_minus)
  have "(24690::rat) / 2147483647 \<le> 1 / 32768" by simp
  then have "fl (24690 / 2147483647) \<le> 1 / 32768" using r1 by (rule fl_le)
  then have "fl (24690 / 2147483647) - 1 \<le> - (32767 / 32768)" by simp
  then have "fl (fl (24690 / 2147483647) - 1) \<le> - (32767 / 32768)" using r2 by (rule fl_le)
  then show ?thesis by (simp add: scale_def jsub_def jdiv_def jmul_def e RNG_m_minus_1 [unfolded jsub_def])
qed

lemma index_zero:
  assumes "- 1 \<le> s" "s \<le> - 32767 / 32768"
  shows "\<lfloor>jmul (jdiv (jadd s 1) 2) 4\<rfloor> = 0"
proof -
  have r1: "fl (1 / 32768) = 1 / 32768" using fl_repr [of 1 "- 15"] by simp
  have r2: "fl (1 / 65536) = 1 / 65536" using fl_repr [of 1 "- 16"] by simp
  have r3: "fl (1 / 16384) = 1 / 16384" using fl_repr [of 1 "- 14"] by simp
  have "s + 1 \<le> 1 / 32768" using assms(2) by simp
  then have "fl (s + 1) \<le> 1 / 32768" using r1 by (rule fl_le)
  then have "fl (s + 1) / 2 \<le> 1 / 65536" by simp
  then have "fl (fl (s + 1) / 2) \<le> 1 / 65536" using r2 by (rule fl_le)
  then have "fl (fl (s + 1) / 2) * 4 \<le> 1 / 16384" by simp
  then have "fl (fl (fl (s + 1) / 2) * 4) \<le> 1 / 16384" using r3 by (rule fl_le)
  then have "fl (fl (fl (s + 1) / 2) * 4) < 1" by simp
  then have "\<lfloor>fl (fl (fl (s + 1) / 2) * 4)\<rfloor> < 1" by (simp add: floor_less_iff)
  then have "\<lfloor>jmul (jdiv (jadd s 1) 2) 4\<rfloor> \<le> 0" by (simp add: jmul_def jdiv_def jadd_def)
  moreover have "0 \<le> \<lfloor>jmul (jdiv (jadd s 1) 2) 4\<rfloor>" using assms(1) by (rule index_lower)
  ultimately show ?thesis by (rule order_antisym)
qed

lemma getCx_0: "getCx 0 = Some 20"
proof -
  have "- 1 \<le> scale 12345" by (rule scale_lower) simp
  then have "cxIndex 0 = 0" unfolding cxIndex_def hash_0 using scale_12345 by (rule index_zero)
  then show ?thesis by (simp add: getCx_def cxValues_def)
qed

text \<open>The world once the scenario note has been spawned.\<close>

lemma spawn_scenario:
  "run initWorld [NoteDue scenarioNote] =
     initWorld\<lparr>userPlayedNotesMap := [0 \<mapsto> 0],
       activeNotes := [KeyH \<mapsto> [scenarioNote], KeyJ \<mapsto> [], KeyK \<mapsto> [], KeyL \<mapsto> []],
       circles := (\<lambda>c. noCircle)(0 := \<lparr>cy = 0, attached = True\<rparr>),
       falls := (\<lambda>c. noFall)(0 := \<lparr>fnote = scenarioNote, accum_Y = 0, moving = True\<rparr>),
       nextCircle := 1\<rparr>"
  by (simp add: run_Cons emitNote_def createCircleNote_def getCx_0 addNoteToKey_def moveCircle_def
      initWorld_def scenarioNote_def Let_def fun_upd_twist)

lemma moveStep_falling:
  assumes "moving (falls w c)" "accum_Y (falls w c) + 2 < 400"
  shows "moveStep c w =
     Inr (w\<lparr>falls := (falls w)(c := (falls w c)\<lparr>accum_Y := accum_Y (falls w c) + 2\<rparr>),
          circles := (circles w)(c := (circles w c)\<lparr>cy := accum_Y (falls w c) + 2\<rparr>)\<rparr>)"
  using assms by (simp add: moveStep_def CANVAS_HEIGHT_def Let_def)

lemma run_falling:
  assumes "moving (falls w c)" "accum_Y (falls w c) + 2 * k < 400"
    "cy (circles w c) = accum_Y (falls w c)"
  shows "run w (replicate k (Interval c)) =
     w\<lparr>falls := (falls w)(c := (falls w c)\<lparr>accum_Y := accum_Y (falls w c) + 2 * k\<rparr>),
       circles := (circles w)(c := (circles w c)\<lparr>cy := accum_Y (falls w c) + 2 * k\<rparr>)\<rparr>"
  using assms
proof (induction k arbitrary: w)
  case 0
  have "(circles w c)\<lparr>cy := accum_Y (falls w c)\<rparr> = circles w c"
    using "0.prems"(3) by (cases "circles w c") simp
  moreover have "(falls w c)\<lparr>accum_Y := accum_Y (falls w c)\<rparr> = falls w c"
    by (cases "falls w c") simp
  ultimately show ?case by simp
next
  case (Suc k)
  let ?w1 = "report (moveStep c w)"
  have s: "?w1 = w\<lparr>falls := (falls w)(c := (falls w c)\<lparr>accum_Y := accum_Y (falls w c) + 2\<rparr>),
       circles := (circles w)(c := (circles w c)\<lparr>cy := accum_Y (falls w c) + 2\<rparr>)\<rparr>"
    using Suc.prems moveStep_falling [of w c] by simp
  have "run w (replicate (Suc k) (Interval c)) = run ?w1 (replicate k (Interval c))"
    by (simp add: run_Cons)
  also have "\<dots> =
     ?w1\<lparr>falls := (falls ?w1)(c := (falls ?w1 c)\<lparr>accum_Y := accum_Y (falls ?w1 c) + 2 * k\<rparr>),
       circles := (circles ?w1)(c := (circles ?w1 c)\<lparr>cy := accum_Y (falls ?w1 c) + 2 * k\<rparr>)\<rparr>"
    using Suc.prems by (intro Suc.IH) (simp_all add: s)
  also have "\<dots> =
     w\<lparr>falls := (falls w)(c := (falls w c)\<lparr>accum_Y := accum_Y (falls w c) + 2 * Suc k\<rparr>),
       circles := (circles w)(c := (circles w c)\<lparr>cy := accum_Y (falls w c) + 2 * Suc k\<rparr>)\<rparr>"
    by (rule world.equality) (simp_all add: s)
  finally show ?case .
qed

text \<open>
  The last emission that the subscriber of a fall receives, at the bottom of the canvas:
  the circle is removed and the fallback sound is played, or \<^verbatim>\<open>playSound\<close> throws.
\<close>

lemma step_bottom:
  assumes "moving (falls w c)" "accum_Y (falls w c) = 398"
  shows "step w (Interval c) =
     (if instrument (fnote (falls w c)) \<in> set (samples w)
      then w\<lparr>falls := (falls w)(c := (falls w c)\<lparr>accum_Y := 400\<rparr>),
             circles := (circles w)(c := (circles w c)\<lparr>cy := 400, attached := False\<rparr>),
             sounds := sounds w @ [missSound (fnote (falls w c))]\<rparr>
      else w\<lparr>falls := (falls w)(c := (falls w c)\<lparr>accum_Y := 400\<rparr>),
             circles := (circles w)(c := (circles w c)\<lparr>cy := 400, attached := False\<rparr>),
             uncaught := uncaught w @ [TypeError]\<rparr>)"
  using assms
  by (simp add: moveStep_def CANVAS_HEIGHT_def playSound_def missSound_def Let_def)

text \<open>The emission after it completes \<^verbatim>\<open>takeWhile\<close>; the subscriber does not see it.\<close>

lemma step_completes:
  assumes "moving (falls w c)" "accum_Y (falls w c) = 400"
  shows "step w (Interval c) =
     w\<lparr>falls := (falls w)(c := (falls w c)\<lparr>accum_Y := 402, moving := False\<rparr>)\<rparr>"
  using assms by (simp add: moveStep_def CANVAS_HEIGHT_def Let_def)

lemma step_stopped: "\<not> moving (falls w c) \<Longrightarrow> step w (Interval c) = w"
  by (simp add: moveStep_def)

lemma scenario_fall:
  assumes "k < 200"
  shows "run initWorld (NoteDue scenarioNote # replicate k (Interval 0)) =
     initWorld\<lparr>userPlayedNotesMap := [0 \<mapsto> 0],
       activeNotes := [KeyH \<mapsto> [scenarioNote], KeyJ \<mapsto> [], KeyK \<mapsto> [], KeyL \<mapsto> []],
       circles := (\<lambda>c. noCircle)(0 := \<lparr>cy = 2 * k, attached = True\<rparr>),
       falls := (\<lambda>c. noFall)(0 := \<lparr>fnote = scenarioNote, accum_Y = 2 * k, moving = True\<rparr>),
       nextCircle := 1\<rparr>"
proof -
  let ?w = "run initWorld [NoteDue scenarioNote]"
  have "run initWorld (NoteDue scenarioNote # replicate k (Interval 0))
      = run ?w (replicate k (Interval 0))" by (simp add: run_Cons)
  also have "\<dots> = ?w\<lparr>falls := (falls ?w)(0 := (falls ?w 0)\<lparr>accum_Y := accum_Y (falls ?w 0) + 2 * k\<rparr>),
       circles := (circles ?w)(0 := (circles ?w 0)\<lparr>cy := accum_Y (falls ?w 0) + 2 * k\<rparr>)\<rparr>"
    using assms by (intro run_falling) (simp_all add: spawn_scenario)
  also have "\<dots> = initWorld\<lparr>userPlayedNotesMap := [0 \<mapsto> 0],
       activeNotes := [KeyH \<mapsto> [scenarioNote], KeyJ \<mapsto> [], KeyK \<mapsto> [], KeyL \<mapsto> []],
       circles := (\<lambda>c. noCircle)(0 := \<lparr>cy = 2 * k, attached = True\<rparr>),
       falls := (\<lambda>c. noFall)(0 := \<lparr>fnote = scenarioNote, accum_Y = 2 * k, moving = True\<rparr>),
       nextCircle := 1\<rparr>"
    by (rule world.equality) (simp_all add: spawn_scenario)
  finally show ?thesis .
qed

lemma sounds_initWorld [simp]: "sounds initWorld = []"
  by (simp add: initWorld_def)

lemma uncaught_initWorld [simp]: "uncaught initWorld = []"
  by (simp add: initWorld_def)

lemma id_scenarioNote [simp]: "id_note scenarioNote = 0"
  by (simp add: scenarioNote_def)

lemma instrument_scenarioNote [simp]: "instrument scenarioNote = ''piano''"
  by (simp add: scenarioNote_def)

lemma scenario_hit:
  "run initWorld (NoteDue scenarioNote # replicate 180 (Interval 0) @ [KeyDown ''KeyH'']) =
     initWorld\<lparr>userPlayedNotesMap := Map.empty,
       activeNotes := [KeyH \<mapsto> [scenarioNote], KeyJ \<mapsto> [], KeyK \<mapsto> [], KeyL \<mapsto> []],
       circles := (\<lambda>c. noCircle)(0 := \<lparr>cy = 360, attached = False\<rparr>),
       falls := (\<lambda>c. noFall)(0 := \<lparr>fnote = scenarioNote, accum_Y = 360, moving = True\<rparr>),
       nextCircle := 1,
       sounds := [hitSound scenarioNote]\<rparr>"
proof -
  have "run initWorld (NoteDue scenarioNote # replicate 180 (Interval 0) @ [KeyDown ''KeyH''])
      = step (run initWorld (NoteDue scenarioNote # replicate 180 (Interval 0))) (KeyDown ''KeyH'')"
    using run_snoc [of initWorld "NoteDue scenarioNote # replicate 180 (Interval 0)"] by simp
  also have "\<dots> = initWorld\<lparr>userPlayedNotesMap := Map.empty,
       activeNotes := [KeyH \<mapsto> [scenarioNote], KeyJ \<mapsto> [], KeyK \<mapsto> [], KeyL \<mapsto> []],
       circles := (\<lambda>c. noCircle)(0 := \<lparr>cy = 360, attached = False\<rparr>),
       falls := (\<lambda>c. noFall)(0 := \<lparr>fnote = scenarioNote, accum_Y = 360, moving = True\<rparr>),
       nextCircle := 1,
       sounds := [hitSound scenarioNote]\<rparr>"
    unfolding scenario_fall [of 180, simplified]
    by (rule world.equality)
      (simp_all add: keydown_def keyOfCode_def notesForKey_def handleKeyPress_def
        isNoteInTargetZone_def playSound_def hitSound_def Let_def)
  finally show ?thesis .
qed

lemma scenario_hit_then_bottom:
  "run initWorld (NoteDue scenarioNote # replicate 180 (Interval 0)
      @ KeyDown ''KeyH'' # replicate 20 (Interval 0)) =
     initWorld\<lparr>userPlayedNotesMap := Map.empty,
       activeNotes := [KeyH \<mapsto> [scenarioNote], KeyJ \<mapsto> [], KeyK \<mapsto> [], KeyL \<mapsto> []],
       circles := (\<lambda>c. noCircle)(0 := \<lparr>cy = 400, attached = False\<rparr>),
       falls := (\<lambda>c. noFall)(0 := \<lparr>fnote = scenarioNote, accum_Y = 400, moving = True\<rparr>),
       nextCircle := 1,
       sounds := [hitSound scenarioNote, missSound scenarioNote]\<rparr>"
proof -
  let ?h = "run initWorld (NoteDue scenarioNote # replicate 180 (Interval 0) @ [KeyDown ''KeyH''])"
  have r: "replicate 20 (Interval 0) = replicate 19 (Interval 0) @ [Interval 0]"
    using replicate_add [of 19 1 "Interval 0"] by simp
  have "run initWorld (NoteDue scenarioNote # replicate 180 (Interval 0)
      @ KeyDown ''KeyH'' # replicate 20 (Interval 0))
      = step (run ?h (replicate 19 (Interval 0))) (Interval 0)"
    unfolding r
    using run_append [of initWorld "NoteDue scenarioNote # replicate 180 (Interval 0) @ [KeyDown ''KeyH'']"
        "replicate 19 (Interval 0) @ [Interval 0]"]
      run_snoc [of ?h "replicate 19 (Interval 0)" "Interval 0"]
    by simp
  also have "run ?h (replicate 19 (Interval 0)) =
      ?h\<lparr>falls := (falls ?h)(0 := (falls ?h 0)\<lparr>accum_Y := accum_Y (falls ?h 0) + 2 * 19\<rparr>),
       circles := (circles ?h)(0 := (circles ?h 0)\<lparr>cy := accum_Y (falls ?h 0) + 2 * 19\<rparr>)\<rparr>"
    by (intro run_falling) (simp_all add: scenario_hit)
  also have "step \<dots> (Interval 0) = initWorld\<lparr>userPlayedNotesMap := Map.empty,
       activeNotes := [KeyH \<mapsto> [scenarioNote], KeyJ \<mapsto> [], KeyK \<mapsto> [], KeyL \<mapsto> []],
       circles := (\<lambda>c. noCircle)(0 := \<lparr>cy = 400, attached = False\<rparr>),
       falls := (\<lambda>c. noFall)(0 := \<lparr>fnote = scenarioNote, accum_Y = 400, moving = True\<rparr>),
       nextCircle := 1,
       sounds := [hitSound scenarioNote, missSound scenarioNote]\<rparr>"
    by (rule world.equality)
      (simp_all add: scenario_hit moveStep_def CANVAS_HEIGHT_def playSound_def missSound_def Let_def)
  finally show ?thesis .
qed

section \<open>Key presses\<close>

lemma handleKeyPress_miss: "\<not> pendingInZone w n \<Longrightarrow> handleKeyPress key n w = Inr w"
  by (simp add: handleKeyPress_def pendingInZone_def split: option.splits)

lemma handleKeyPress_throws:
  "pendingInZone w n \<Longrightarrow> \<not> playable w n \<Longrightarrow> handleKeyPress key n w = Inl (TypeError, w)"
  by (auto simp add: handleKeyPress_def pendingInZone_def playable_def playSound_def
      split: option.splits)

lemma handleKeyPress_returns:
  "pendingInZone w n \<Longrightarrow> playable w n \<Longrightarrow>
   handleKeyPress key n w = Inr (report (handleKeyPress key n w))"
  by (simp add: handleKeyPress_def pendingInZone_def playable_def playSound_def Let_def
      split: option.splits)

lemma sounds_handleKeyPress:
  "sounds (report (handleKeyPress key n w)) =
     sounds w @ (if pendingInZone w n \<and> playable w n then [hitSound n] else [])"
  by (simp add: handleKeyPress_def pendingInZone_def playable_def playSound_def hitSound_def Let_def
      split: option.splits)

lemma uncaught_handleKeyPress:
  "uncaught (report (handleKeyPress key n w)) =
     uncaught w @ (if pendingInZone w n \<and> \<not> playable w n then [TypeError] else [])"
  by (simp add: handleKeyPress_def pendingInZone_def playable_def playSound_def Let_def
      split: option.splits)

lemma map_handleKeyPress:
  "userPlayedNotesMap (report (handleKeyPress key n w)) =
     (if pendingInZone w n \<and> playable w n then (userPlayedNotesMap w)(id_note n := None)
      else userPlayedNotesMap w)"
  by (auto simp add: handleKeyPress_def pendingInZone_def playable_def playSound_def Let_def
      split: option.splits)

lemma cy_handleKeyPress: "cy (circles (report (handleKeyPress key n w)) c) = cy (circles w c)"
  by (simp add: handleKeyPress_def playSound_def Let_def split: option.splits)

lemma playable_handleKeyPress: "playable (report (handleKeyPress key n w)) = playable w"
  by (rule ext) (simp add: playable_def)

lemma pendingInZone_handleKeyPress:
  "id_note n' \<noteq> id_note n \<Longrightarrow>
   pendingInZone (report (handleKeyPress key n w)) n' = pendingInZone w n'"
  by (simp add: pendingInZone_def map_handleKeyPress cy_handleKeyPress split: option.splits)

lemma filter_after_handleKeyPress:
  assumes "id_note n \<notin> id_note ` set ns"
  shows "filter (pendingInZone (report (handleKeyPress key n w))) ns = filter (pendingInZone w) ns"
proof (rule filter_cong)
  fix x
  assume "x \<in> set ns"
  with assms have "id_note x \<noteq> id_note n" by (metis imageI)
  then show "pendingInZone (report (handleKeyPress key n w)) x = pendingInZone w x"
    by (rule pendingInZone_handleKeyPress)
qed simp

text \<open>
  What \<^verbatim>\<open>forEach\<close> does with a lane: it hits the notes in the zone one after the other,
  up to the first one that \<^verbatim>\<open>samples\<close> has no sampler for, where it throws.
\<close>

lemma forEach_handleKeyPress:
  assumes "distinct (map id_note ns)"
  shows "sounds (report (forEach (handleKeyPress key) ns w)) =
           sounds w @ map hitSound (takeWhile (playable w) (filter (pendingInZone w) ns))
       \<and> uncaught (report (forEach (handleKeyPress key) ns w)) =
           uncaught w @ (if list_all (playable w) (filter (pendingInZone w) ns) then [] else [TypeError])
       \<and> (\<forall>i. userPlayedNotesMap (report (forEach (handleKeyPress key) ns w)) i =
            (if i \<in> id_note ` set (takeWhile (playable w) (filter (pendingInZone w) ns)) then None
             else userPlayedNotesMap w i))
       \<and> (isl (forEach (handleKeyPress key) ns w)
            \<longleftrightarrow> \<not> list_all (playable w) (filter (pendingInZone w) ns))"
  using assms
proof (induction ns arbitrary: w)
  case Nil
  then show ?case by simp
next
  case (Cons n ns)
  have fresh: "id_note n \<notin> id_note ` set ns" and d: "distinct (map id_note ns)"
    using Cons.prems by simp_all
  show ?case
  proof (cases "pendingInZone w n")
    case False
    then show ?thesis using Cons.IH [OF d, of w] by (simp add: handleKeyPress_miss)
  next
    case True
    show ?thesis
    proof (cases "playable w n")
      case False
      then show ?thesis using True by (simp add: handleKeyPress_throws)
    next
      case p: True
      obtain v where v: "handleKeyPress key n w = Inr v"
        using handleKeyPress_returns [OF True p, of key] by blast
      have rv: "report (handleKeyPress key n w) = v" using v by simp
      have f: "filter (pendingInZone v) ns = filter (pendingInZone w) ns"
        using fresh filter_after_handleKeyPress [of n ns key w] by (simp add: rv)
      have e: "forEach (handleKeyPress key) (n # ns) w = forEach (handleKeyPress key) ns v"
        using v by simp
      have m: "userPlayedNotesMap v = (userPlayedNotesMap w)(id_note n := None)"
        using True p map_handleKeyPress [of key n w] by (simp add: rv)
      have s: "sounds v = sounds w @ [hitSound n]" "uncaught v = uncaught w"
        using True p sounds_handleKeyPress [of key n w] uncaught_handleKeyPress [of key n w]
        by (simp_all add: rv)
      have pl: "playable v = playable w"
        using playable_handleKeyPress [of key n w] by (simp add: rv)
      show ?thesis
        unfolding e using Cons.IH [OF d, of v] True p
        by (simp add: f m s pl)
    qed
  qed
qed

lemma forEach_noop:
  assumes "filter (pendingInZone w) ns = []"
  shows "forEach (handleKeyPress key) ns w = Inr w"
  using assms
proof (induction ns)
  case Nil
  then show ?case by simp
next
  case (Cons n ns)
  then have "\<not> pendingInZone w n" "filter (pendingInZone w) ns = []"
    by (simp_all split: if_splits)
  then show ?case using Cons.IH by (simp add: handleKeyPress_miss)
qed

lemma target_zone_tolerance: "isNoteInTargetZone y \<longleftrightarrow> \<bar>int y - 360\<bar> \<le> 10"
  by (auto simp: isNoteInTargetZone_def)

section \<open>The lanes hold each id once\<close>

lemma activeNotes_playSound [simp]: "activeNotes (report (playSound n d w)) = activeNotes w"
  by (simp add: playSound_def)

lemma activeNotes_moveStep [simp]: "activeNotes (report (moveStep c w)) = activeNotes w"
  by (simp add: moveStep_def playSound_def Let_def)

lemma activeNotes_handleKeyPress [simp]:
  "activeNotes (report (handleKeyPress key n w)) = activeNotes w"
  by (simp add: handleKeyPress_def playSound_def Let_def split: option.splits)

lemma activeNotes_keydown [simp]: "activeNotes (report (keydown code w)) = activeNotes w"
  by (simp add: keydown_def forEach_frame split: option.splits)

lemma activeNotes_clockTick [simp]: "activeNotes (clockTick w) = activeNotes w"
  by (simp add: clockTick_def)

lemma notesForKey_createCircleNote:
  "\<exists>key. \<forall>k. notesForKey (createCircleNote n w) k = notesForKey w k
        \<or> (k = key \<and> notesForKey (createCircleNote n w) k = notesForKey w k @ [n])"
proof -
  obtain key where key: "\<forall>k. activeNotes (createCircleNote n w) k =
     (if k = key then map_option (\<lambda>ns. ns @ [n]) (activeNotes w k) else activeNotes w k)"
    using createCircleNote_lane [of n w] ..
  have "notesForKey (createCircleNote n w) k = notesForKey w k
        \<or> (k = key \<and> notesForKey (createCircleNote n w) k = notesForKey w k @ [n])" for k
    using key by (cases "activeNotes w k") (auto simp: notesForKey_def)
  then show ?thesis by blast
qed

lemma notesForKey_step:
  "notesForKey (step w e) k = notesForKey w k
   \<or> (\<exists>n. e = NoteDue n \<and> notesForKey (step w e) k = notesForKey w k @ [n])"
proof (cases e)
  case (NoteDue n)
  then show ?thesis
    using notesForKey_createCircleNote [of n w]
    by (cases "user_played n") (auto simp: emitNote_def notesForKey_def)
qed (simp_all add: notesForKey_def)

text \<open>
  In a run whose notes come due with pairwise different ids, the pending list of every
  lane holds each id at most once.
\<close>

lemma activeNotes_distinct_run:
  assumes "distinct (map id_note (dueNotes es))"
    and "\<forall>k. distinct (map id_note (notesForKey w k))"
    and "\<forall>k. \<forall>a \<in> set (notesForKey w k). \<forall>b \<in> set (dueNotes es). id_note a \<noteq> id_note b"
  shows "distinct (map id_note (notesForKey (run w es) key))"
  using assms
proof (induction es arbitrary: w)
  case Nil
  then show ?case by simp
next
  case (Cons e es)
  have d: "distinct (map id_note (dueNotes es))"
    using Cons.prems(1) by (cases e) simp_all
  have s: "set (dueNotes es) \<subseteq> set (dueNotes (e # es))"
    by (cases e) auto
  have old: "\<forall>a \<in> set (notesForKey w k). \<forall>b \<in> set (dueNotes es). id_note a \<noteq> id_note b" for k
    using Cons.prems(3) s by blast
  have "distinct (map id_note (notesForKey (step w e) k))
      \<and> (\<forall>a \<in> set (notesForKey (step w e) k). \<forall>b \<in> set (dueNotes es). id_note a \<noteq> id_note b)"
    for k
  proof -
    consider "notesForKey (step w e) k = notesForKey w k"
      | n where "e = NoteDue n" "notesForKey (step w e) k = notesForKey w k @ [n]"
      using notesForKey_step [of w e k] by blast
    then show ?thesis
    proof cases
      case 1
      then show ?thesis using Cons.prems(2) old [of k] by simp
    next
      case 2
      have a: "\<forall>a \<in> set (notesForKey w k). id_note a \<noteq> id_note n"
        using Cons.prems(3) 2(1) by simp
      have b: "\<forall>b \<in> set (dueNotes es). id_note n \<noteq> id_note b"
        using Cons.prems(1) 2(1) by auto
      show ?thesis using Cons.prems(2) 2(2) old [of k] a b by auto
    qed
  qed
  then have "distinct (map id_note (notesForKey (run (step w e) es) key))"
    using d by (intro Cons.IH) simp_all
  then show ?case by (simp add: run_Cons)
qed

lemma activeNotes_distinct:
  assumes "distinct (map id_note (dueNotes es))"
  shows "distinct (map id_note (notesForKey (run initWorld es) key))"
proof -
  have "notesForKey initWorld k = []" for k
    by (cases k) (simp_all add: notesForKey_def initWorld_def)
  then show ?thesis using assms by (intro activeNotes_distinct_run) simp_all
qed

section \<open>Pressing twice, pressing late\<close>

lemma cy_forEach [simp]:
  "cy (circles (report (forEach (handleKeyPress key) ns w)) c) = cy (circles w c)"
  by (rule forEach_frame) (rule cy_handleKeyPress)

text \<open>
  Pressing the key of a lane again, with nothing moved in between, does nothing: the
  notes the first press resolved have left the registry.
\<close>

lemma keydown_twice:
  assumes "distinct (map id_note (notesForKey w key))" "keyOfCode code = Some key"
    "list_all (playable w) (inZone w key)"
  shows "step (step w (KeyDown code)) (KeyDown code) = step w (KeyDown code)"
proof -
  let ?ns = "notesForKey w key"
  let ?v = "report (forEach (handleKeyPress key) ?ns w)"
  have v: "step w (KeyDown code) = ?v" using assms(2) by (simp add: keydown_def)
  have ns: "notesForKey ?v key = ?ns" by (simp add: notesForKey_def forEach_frame)
  have t: "takeWhile (playable w) (filter (pendingInZone w) ?ns) = filter (pendingInZone w) ?ns"
    using assms(3) by (simp add: inZone_def list_all_iff)
  have m: "userPlayedNotesMap ?v i =
      (if i \<in> id_note ` set (filter (pendingInZone w) ?ns) then None else userPlayedNotesMap w i)"
    for i
    using forEach_handleKeyPress [OF assms(1), of key w] by (simp add: t)
  have "\<not> pendingInZone ?v n" if "n \<in> set ?ns" for n
  proof (cases "id_note n \<in> id_note ` set (filter (pendingInZone w) ?ns)")
    case True
    then have "userPlayedNotesMap ?v (id_note n) = None" by (simp only: m if_True)
    then show ?thesis by (simp add: pendingInZone_def)
  next
    case False
    then have "\<not> pendingInZone w n" using that by auto
    moreover have "userPlayedNotesMap ?v (id_note n) = userPlayedNotesMap w (id_note n)"
      using False by (simp only: m if_False)
    ultimately show ?thesis by (simp add: pendingInZone_def split: option.splits)
  qed
  then have "filter (pendingInZone ?v) ?ns = []" by (simp add: filter_empty_conv)
  then have "forEach (handleKeyPress key) ?ns ?v = Inr ?v" by (rule forEach_noop)
  then have "step ?v (KeyDown code) = ?v" using assms(2) ns by (simp add: keydown_def)
  then show ?thesis by (simp only: v)
qed

text \<open>A note that was force-missed stays at the bottom, outside the target zone.\<close>

lemma no_hit_at_bottom:
  assumes "userPlayedNotesMap w (id_note n) = Some c" "cy (circles w c) = CANVAS_HEIGHT"
  shows "handleKeyPress key n w = Inr w"
  using assms by (simp add: handleKeyPress_def isNoteInTargetZone_def CANVAS_HEIGHT_def)

section \<open>The circles that a key press removes\<close>

lemma circles_handleKeyPress:
  "circles (report (handleKeyPress key n w)) c =
     (if pendingInZone w n \<and> playable w n \<and> userPlayedNotesMap w (id_note n) = Some c
      then (circles w c)\<lparr>attached := False\<rparr> else circles w c)"
  by (auto simp add: handleKeyPress_def pendingInZone_def playable_def playSound_def Let_def
      split: option.splits)

lemma circles_forEach:
  assumes "distinct (map id_note ns)"
  shows "circles (report (forEach (handleKeyPress key) ns w)) c =
     (if \<exists>n \<in> set (takeWhile (playable w) (filter (pendingInZone w) ns)).
           userPlayedNotesMap w (id_note n) = Some c
      then (circles w c)\<lparr>attached := False\<rparr> else circles w c)"
  using assms
proof (induction ns arbitrary: w)
  case Nil
  then show ?case by simp
next
  case (Cons n ns)
  have fresh: "id_note n \<notin> id_note ` set ns" and d: "distinct (map id_note ns)"
    using Cons.prems by simp_all
  show ?case
  proof (cases "pendingInZone w n")
    case False
    then show ?thesis using Cons.IH [OF d, of w] by (simp add: handleKeyPress_miss)
  next
    case True
    show ?thesis
    proof (cases "playable w n")
      case False
      then show ?thesis using True by (simp add: handleKeyPress_throws)
    next
      case p: True
      obtain v where v: "handleKeyPress key n w = Inr v"
        using handleKeyPress_returns [OF True p, of key] by blast
      have rv: "report (handleKeyPress key n w) = v" using v by simp
      let ?ps = "takeWhile (playable w) (filter (pendingInZone w) ns)"
      have f: "filter (pendingInZone v) ns = filter (pendingInZone w) ns"
        using fresh filter_after_handleKeyPress [of n ns key w] by (simp add: rv)
      have pl: "playable v = playable w"
        using playable_handleKeyPress [of key n w] by (simp add: rv)
      have e: "forEach (handleKeyPress key) (n # ns) w = forEach (handleKeyPress key) ns v"
        using v by simp
      have m: "userPlayedNotesMap v (id_note x) = userPlayedNotesMap w (id_note x)"
        if "x \<in> set ?ps" for x
      proof -
        have "x \<in> set ns" using that by (metis filter_is_subset set_takeWhileD subsetD)
        then have "id_note x \<noteq> id_note n" using fresh by (metis imageI)
        then show ?thesis using map_handleKeyPress [of key n w] by (simp add: rv)
      qed
      have cv: "circles v c =
          (if userPlayedNotesMap w (id_note n) = Some c then (circles w c)\<lparr>attached := False\<rparr>
           else circles w c)"
        using True p circles_handleKeyPress [of key n w c] by (simp add: rv)
      have "circles (report (forEach (handleKeyPress key) ns v)) c =
          (if \<exists>x \<in> set ?ps. userPlayedNotesMap v (id_note x) = Some c
           then (circles v c)\<lparr>attached := False\<rparr> else circles v c)"
        using Cons.IH [OF d, of v] by (simp add: f pl)
      also have "(\<exists>x \<in> set ?ps. userPlayedNotesMap v (id_note x) = Some c)
          \<longleftrightarrow> (\<exists>x \<in> set ?ps. userPlayedNotesMap w (id_note x) = Some c)"
        using m by auto
      finally show ?thesis unfolding e using True p by (auto simp add: cv)
    qed
  qed
qed

section \<open>The fall to the bottom\<close>

lemma run_stopped:
  assumes "\<not> moving (falls w c)"
  shows "run w (replicate k (Interval c)) = w"
proof (induction k)
  case 0
  then show ?case by simp
next
  case (Suc k)
  have "step w (Interval c) = w" using assms by (rule step_stopped)
  then show ?case using Suc by (simp only: replicate_Suc run_Cons)
qed

lemma scenario_miss:
  "run initWorld (NoteDue scenarioNote # replicate 200 (Interval 0)) =
     initWorld\<lparr>userPlayedNotesMap := [0 \<mapsto> 0],
       activeNotes := [KeyH \<mapsto> [scenarioNote], KeyJ \<mapsto> [], KeyK \<mapsto> [], KeyL \<mapsto> []],
       circles := (\<lambda>c. noCircle)(0 := \<lparr>cy = 400, attached = False\<rparr>),
       falls := (\<lambda>c. noFall)(0 := \<lparr>fnote = scenarioNote, accum_Y = 400, moving = True\<rparr>),
       nextCircle := 1,
       sounds := [missSound scenarioNote]\<rparr>"
proof -
  have r: "replicate 200 (Interval 0) = replicate 199 (Interval 0) @ [Interval 0]"
    using replicate_add [of 199 1 "Interval 0"] by simp
  have "run initWorld (NoteDue scenarioNote # replicate 200 (Interval 0))
      = step (run initWorld (NoteDue scenarioNote # replicate 199 (Interval 0))) (Interval 0)"
    unfolding r using run_snoc [of initWorld "NoteDue scenarioNote # replicate 199 (Interval 0)"]
    by simp
  also have "\<dots> = initWorld\<lparr>userPlayedNotesMap := [0 \<mapsto> 0],
       activeNotes := [KeyH \<mapsto> [scenarioNote], KeyJ \<mapsto> [], KeyK \<mapsto> [], KeyL \<mapsto> []],
       circles := (\<lambda>c. noCircle)(0 := \<lparr>cy = 400, attached = False\<rparr>),
       falls := (\<lambda>c. noFall)(0 := \<lparr>fnote = scenarioNote, accum_Y = 400, moving = True\<rparr>),
       nextCircle := 1,
       sounds := [missSound scenarioNote]\<rparr>"
    unfolding scenario_fall [of 199, simplified]
    by (rule world.equality)
      (simp_all add: moveStep_def CANVAS_HEIGHT_def playSound_def missSound_def Let_def)
  finally show ?thesis .
qed

lemma scenario_after_miss:
  assumes "200 < k"
  shows "run initWorld (NoteDue scenarioNote # replicate k (Interval 0)) =
     initWorld\<lparr>userPlayedNotesMap := [0 \<mapsto> 0],
       activeNotes := [KeyH \<mapsto> [scenarioNote], KeyJ \<mapsto> [], KeyK \<mapsto> [], KeyL \<mapsto> []],
       circles := (\<lambda>c. noCircle)(0 := \<lparr>cy = 400, attached = False\<rparr>),
       falls := (\<lambda>c. noFall)(0 := \<lparr>fnote = scenarioNote, accum_Y = 402, moving = False\<rparr>),
       nextCircle := 1,
       sounds := [missSound scenarioNote]\<rparr>"
proof -
  let ?m = "run initWorld (NoteDue scenarioNote # replicate 200 (Interval 0))"
  let ?d = "initWorld\<lparr>userPlayedNotesMap := [0 \<mapsto> 0],
       activeNotes := [KeyH \<mapsto> [scenarioNote], KeyJ \<mapsto> [], KeyK \<mapsto> [], KeyL \<mapsto> []],
       circles := (\<lambda>c. noCircle)(0 := \<lparr>cy = 400, attached = False\<rparr>),
       falls := (\<lambda>c. noFall)(0 := \<lparr>fnote = scenarioNote, accum_Y = 402, moving = False\<rparr>),
       nextCircle := 1,
       sounds := [missSound scenarioNote]\<rparr>"
  have r: "replicate k (Interval 0)
      = replicate 200 (Interval 0) @ Interval 0 # replicate (k - 201) (Interval 0)"
    using assms replicate_add [of 200 "Suc (k - 201)" "Interval 0"] by simp
  have d: "step ?m (Interval 0) = ?d"
    unfolding scenario_miss
    by (rule world.equality) (simp_all add: moveStep_def CANVAS_HEIGHT_def Let_def)
  have "run initWorld (NoteDue scenarioNote # replicate k (Interval 0))
      = run (step ?m (Interval 0)) (replicate (k - 201) (Interval 0))"
    unfolding r
    using run_append [of initWorld "NoteDue scenarioNote # replicate 200 (Interval 0)"
        "Interval 0 # replicate (k - 201) (Interval 0)"]
    by (simp add: run_Cons)
  also have "\<dots> = ?d" unfolding d by (rule run_stopped) simp
  finally show ?thesis .
qed

lemma delayArg_scenarioNote: "delayArg scenarioNote = 1500"
  using fl_of_int_exact [of 5000] fl_of_int_exact [of 1500]
  by (simp add: delayArg_def scenarioNote_def jsub_def jmul_def)

lemma delayArg_autoNote: "delayArg autoNote = 2000"
  using fl_of_int_exact [of 2000]
  by (simp add: delayArg_def autoNote_def jmul_def)

lemma circles_addNoteToKey [simp]: "circles (addNoteToKey key n w) = circles w"
  by (simp add: addNoteToKey_def split: option.splits)

lemma falls_addNoteToKey [simp]: "falls (addNoteToKey key n w) = falls w"
  by (simp add: addNoteToKey_def split: option.splits)

lemma sounds_addNoteToKey [simp]: "sounds (addNoteToKey key n w) = sounds w"
  by (simp add: addNoteToKey_def split: option.splits)

lemma sounds_createCircleNote: "sounds (createCircleNote n w) = sounds w"
  by (simp add: createCircleNote_def moveCircle_def Let_def)

lemma circles_createCircleNote:
  "circles (createCircleNote n w) = (circles w)(nextCircle w := \<lparr>cy = 0, attached = True\<rparr>)"
  by (simp add: createCircleNote_def moveCircle_def Let_def)

lemma falls_createCircleNote:
  "falls (createCircleNote n w)
     = (falls w)(nextCircle w := \<lparr>fnote = n, accum_Y = 0, moving = True\<rparr>)"
  by (simp add: createCircleNote_def moveCircle_def Let_def)

text \<open>
  The position of any note \<open>k\<close> intervals after it was spawned is \<open>2 * k\<close>, up to the
  bottom of the canvas: it is 360 at the 180th interval and at no other.
\<close>

lemma fall_position:
  assumes "k < 200"
  shows "cy (circles (run (createCircleNote n w) (replicate k (Interval (nextCircle w))))
            (nextCircle w)) = 2 * k"
proof -
  let ?v = "createCircleNote n w" and ?c = "nextCircle w"
  have "run ?v (replicate k (Interval ?c)) =
     ?v\<lparr>falls := (falls ?v)(?c := (falls ?v ?c)\<lparr>accum_Y := accum_Y (falls ?v ?c) + 2 * k\<rparr>),
       circles := (circles ?v)(?c := (circles ?v ?c)\<lparr>cy := accum_Y (falls ?v ?c) + 2 * k\<rparr>)\<rparr>"
    using assms by (intro run_falling) (simp_all add: circles_createCircleNote falls_createCircleNote)
  then show ?thesis by (simp add: falls_createCircleNote)
qed

lemma spawnTime_scenarioNote: "spawnTime scenarioNote = 1500"
  by (simp add: spawnTime_def delayArg_scenarioNote)

lemma spawnTime_autoNote: "spawnTime autoNote = 2000"
  by (simp add: spawnTime_def delayArg_autoNote)

lemma emissionTime_hit_line: "emissionTime n 180 = spawnTime n + 1800"
  by (simp add: emissionTime_def)

text \<open>
  A player note that starts less than 3.5 s into the track has a negative delay: it is
  spawned at once and is on the hit line 1800 ms into the track.
\<close>

lemma delayArg_zeroNote: "delayArg zeroNote = - 3000"
  using fl_of_int_exact [of 500] fl_of_int_exact [of 3000]
  by (simp add: delayArg_def zeroNote_def jsub_def jmul_def fl_minus)

lemma emissionTime_zeroNote: "spawnTime zeroNote = 0 \<and> emissionTime zeroNote 180 = 1800"
  by (simp add: emissionTime_def spawnTime_def delayArg_zeroNote)

text \<open>
  Every note that \<^verbatim>\<open>samples\<close> has a sampler for is force-missed by the 200th emission of
  its interval: the fallback playback is requested then, with the duration
  \<open>scale (hash endTime)\<close>.
\<close>

lemma miss_at_bottom:
  assumes "playable w n"
  shows "sounds (run (createCircleNote n w) (replicate 200 (Interval (nextCircle w))))
     = sounds w @ [missSound n]"
proof -
  let ?v = "createCircleNote n w" and ?c = "nextCircle w"
  let ?u = "run ?v (replicate 199 (Interval ?c))"
  have u: "?u =
     ?v\<lparr>falls := (falls ?v)(?c := (falls ?v ?c)\<lparr>accum_Y := accum_Y (falls ?v ?c) + 2 * 199\<rparr>),
       circles := (circles ?v)(?c := (circles ?v ?c)\<lparr>cy := accum_Y (falls ?v ?c) + 2 * 199\<rparr>)\<rparr>"
    by (intro run_falling) (simp_all add: circles_createCircleNote falls_createCircleNote)
  have r: "replicate 200 (Interval ?c) = replicate 199 (Interval ?c) @ [Interval ?c]"
    using replicate_add [of 199 1 "Interval ?c"] by simp
  have "run ?v (replicate 200 (Interval ?c)) = step ?u (Interval ?c)"
    unfolding r by (rule run_snoc)
  moreover have "sounds (step ?u (Interval ?c)) = sounds ?u @ [missSound n]"
    using assms step_bottom [of ?u ?c]
    by (simp add: u falls_createCircleNote playable_def)
  moreover have "sounds ?u = sounds ?v" by (simp add: u)
  moreover have "sounds ?v = sounds w" by (rule sounds_createCircleNote)
  ultimately show ?thesis by simp
qed

section \<open>Two notes of one lane in flight\<close>

lemma hash_2: "hash 2 = 59559187"
proof -
  have "fl 2207030490 = 2207030490" using fl_of_int_exact [of 2207030490] by simp
  moreover have "fl 2207042835 = 2207042835" using fl_of_int_exact [of 2207042835] by simp
  moreover have "jmod 2207042835 RNG_m = 59559187" using jmod_of_int [of 2207042835] by simp
  ultimately show ?thesis by (simp add: hash_def jadd_def jmul_def RNG_a_def RNG_c_def)
qed

lemma scale_59559187: "scale 59559187 \<le> - 15 / 16"
proof -
  have e: "fl 119118374 = 119118374" using fl_of_int_exact [of 119118374] by simp
  have r1: "fl (1 / 16) = 1 / 16" using fl_repr [of 1 "- 4"] by simp
  have r2: "fl (- (15 / 16)) = - (15 / 16)"
    using fl_repr [of 15 "- 4"] by (simp add: fl_minus)
  have "(119118374::rat) / 2147483647 \<le> 1 / 16" by simp
  then have "fl (119118374 / 2147483647) \<le> 1 / 16" using r1 by (rule fl_le)
  then have "fl (119118374 / 2147483647) - 1 \<le> - (15 / 16)" by simp
  then have "fl (fl (119118374 / 2147483647) - 1) \<le> - (15 / 16)" using r2 by (rule fl_le)
  then show ?thesis by (simp add: scale_def jsub_def jdiv_def jmul_def e RNG_m_minus_1 [unfolded jsub_def])
qed

lemma index_first_lane:
  assumes "- 1 \<le> s" "s \<le> - 15 / 16"
  shows "\<lfloor>jmul (jdiv (jadd s 1) 2) 4\<rfloor> = 0"
proof -
  have r1: "fl (1 / 16) = 1 / 16" using fl_repr [of 1 "- 4"] by simp
  have r2: "fl (1 / 32) = 1 / 32" using fl_repr [of 1 "- 5"] by simp
  have r3: "fl (1 / 8) = 1 / 8" using fl_repr [of 1 "- 3"] by simp
  have "s + 1 \<le> 1 / 16" using assms(2) by simp
  then have "fl (s + 1) \<le> 1 / 16" using r1 by (rule fl_le)
  then have "fl (s + 1) / 2 \<le> 1 / 32" by simp
  then have "fl (fl (s + 1) / 2) \<le> 1 / 32" using r2 by (rule fl_le)
  then have "fl (fl (s + 1) / 2) * 4 \<le> 1 / 8" by simp
  then have "fl (fl (fl (s + 1) / 2) * 4) \<le> 1 / 8" using r3 by (rule fl_le)
  then have "fl (fl (fl (s + 1) / 2) * 4) < 1" by simp
  then have "\<lfloor>fl (fl (fl (s + 1) / 2) * 4)\<rfloor> < 1" by (simp add: floor_less_iff)
  then have "\<lfloor>jmul (jdiv (jadd s 1) 2) 4\<rfloor> \<le> 0" by (simp add: jmul_def jdiv_def jadd_def)
  moreover have "0 \<le> \<lfloor>jmul (jdiv (jadd s 1) 2) 4\<rfloor>" using assms(1) by (rule index_lower)
  ultimately show ?thesis by (rule order_antisym)
qed

lemma getCx_2: "getCx 2 = Some 20"
proof -
  have "- 1 \<le> scale 59559187" by (rule scale_lower) simp
  then have "cxIndex 2 = 0" unfolding cxIndex_def hash_2 using scale_59559187 by (rule index_first_lane)
  then show ?thesis by (simp add: getCx_def cxValues_def)
qed

text \<open>Two falls side by side, their intervals taking turns.\<close>

lemma run_falling_two:
  assumes "c \<noteq> c'" "moving (falls w c)" "moving (falls w c')"
    "accum_Y (falls w c) + 2 * k < 400" "accum_Y (falls w c') + 2 * k < 400"
    "cy (circles w c) = accum_Y (falls w c)" "cy (circles w c') = accum_Y (falls w c')"
  shows "run w (concat (replicate k [Interval c, Interval c'])) =
     w\<lparr>falls := (falls w)(c := (falls w c)\<lparr>accum_Y := accum_Y (falls w c) + 2 * k\<rparr>,
                          c' := (falls w c')\<lparr>accum_Y := accum_Y (falls w c') + 2 * k\<rparr>),
       circles := (circles w)(c := (circles w c)\<lparr>cy := accum_Y (falls w c) + 2 * k\<rparr>,
                              c' := (circles w c')\<lparr>cy := accum_Y (falls w c') + 2 * k\<rparr>)\<rparr>"
  using assms
proof (induction k arbitrary: w)
  case 0
  have "(circles w c)\<lparr>cy := accum_Y (falls w c)\<rparr> = circles w c"
    using "0.prems"(6) by (cases "circles w c") simp
  moreover have "(circles w c')\<lparr>cy := accum_Y (falls w c')\<rparr> = circles w c'"
    using "0.prems"(7) by (cases "circles w c'") simp
  moreover have "(falls w c)\<lparr>accum_Y := accum_Y (falls w c)\<rparr> = falls w c"
    by (cases "falls w c") simp
  moreover have "(falls w c')\<lparr>accum_Y := accum_Y (falls w c')\<rparr> = falls w c'"
    by (cases "falls w c'") simp
  ultimately show ?case by simp
next
  case (Suc k)
  define v1 where "v1 =
     w\<lparr>falls := (falls w)(c := (falls w c)\<lparr>accum_Y := accum_Y (falls w c) + 2\<rparr>),
       circles := (circles w)(c := (circles w c)\<lparr>cy := accum_Y (falls w c) + 2\<rparr>)\<rparr>"
  define v2 where "v2 =
     w\<lparr>falls := (falls w)(c := (falls w c)\<lparr>accum_Y := accum_Y (falls w c) + 2\<rparr>,
                          c' := (falls w c')\<lparr>accum_Y := accum_Y (falls w c') + 2\<rparr>),
       circles := (circles w)(c := (circles w c)\<lparr>cy := accum_Y (falls w c) + 2\<rparr>,
                              c' := (circles w c')\<lparr>cy := accum_Y (falls w c') + 2\<rparr>)\<rparr>"
  have m1: "moveStep c w = Inr v1"
    unfolding v1_def using Suc.prems by (intro moveStep_falling) simp_all
  have "moveStep c' v1 =
     Inr (v1\<lparr>falls := (falls v1)(c' := (falls v1 c')\<lparr>accum_Y := accum_Y (falls v1 c') + 2\<rparr>),
          circles := (circles v1)(c' := (circles v1 c')\<lparr>cy := accum_Y (falls v1 c') + 2\<rparr>)\<rparr>)"
    using Suc.prems by (intro moveStep_falling) (simp_all add: v1_def)
  moreover have
    "v1\<lparr>falls := (falls v1)(c' := (falls v1 c')\<lparr>accum_Y := accum_Y (falls v1 c') + 2\<rparr>),
        circles := (circles v1)(c' := (circles v1 c')\<lparr>cy := accum_Y (falls v1 c') + 2\<rparr>)\<rparr> = v2"
    using Suc.prems(1) by (intro world.equality) (simp_all add: v1_def v2_def)
  ultimately have m2: "moveStep c' v1 = Inr v2" by simp
  have "run w (concat (replicate (Suc k) [Interval c, Interval c']))
      = run v2 (concat (replicate k [Interval c, Interval c']))"
    by (simp add: run_Cons m1 m2)
  also have "\<dots> =
     v2\<lparr>falls := (falls v2)(c := (falls v2 c)\<lparr>accum_Y := accum_Y (falls v2 c) + 2 * k\<rparr>,
                          c' := (falls v2 c')\<lparr>accum_Y := accum_Y (falls v2 c') + 2 * k\<rparr>),
       circles := (circles v2)(c := (circles v2 c)\<lparr>cy := accum_Y (falls v2 c) + 2 * k\<rparr>,
                              c' := (circles v2 c')\<lparr>cy := accum_Y (falls v2 c') + 2 * k\<rparr>)\<rparr>"
    using Suc.prems by (intro Suc.IH) (simp_all add: v2_def)
  also have "\<dots> =
     w\<lparr>falls := (falls w)(c := (falls w c)\<lparr>accum_Y := accum_Y (falls w c) + 2 * Suc k\<rparr>,
                          c' := (falls w c')\<lparr>accum_Y := accum_Y (falls w c') + 2 * Suc k\<rparr>),
       circles := (circles w)(c := (circles w c)\<lparr>cy := accum_Y (falls w c) + 2 * Suc k\<rparr>,
                              c' := (circles w c')\<lparr>cy := accum_Y (falls w c') + 2 * Suc k\<rparr>)\<rparr>"
    using Suc.prems(1) by (intro world.equality) (simp_all add: v2_def)
  finally show ?case .
qed

text \<open>The first note of a track belongs to the first lane; it falls 2 per interval.\<close>

lemma first_note_fall:
  assumes "id_note n = 0" "user_played n" "k < 200"
  shows "run initWorld (NoteDue n # replicate k (Interval 0)) =
     initWorld\<lparr>userPlayedNotesMap := [0 \<mapsto> 0],
       activeNotes := [KeyH \<mapsto> [n], KeyJ \<mapsto> [], KeyK \<mapsto> [], KeyL \<mapsto> []],
       circles := (\<lambda>c. noCircle)(0 := \<lparr>cy = 2 * k, attached = True\<rparr>),
       falls := (\<lambda>c. noFall)(0 := \<lparr>fnote = n, accum_Y = 2 * k, moving = True\<rparr>),
       nextCircle := 1\<rparr>"
proof -
  let ?w = "run initWorld [NoteDue n]"
  have w: "?w =
     initWorld\<lparr>userPlayedNotesMap := [0 \<mapsto> 0],
       activeNotes := [KeyH \<mapsto> [n], KeyJ \<mapsto> [], KeyK \<mapsto> [], KeyL \<mapsto> []],
       circles := (\<lambda>c. noCircle)(0 := \<lparr>cy = 0, attached = True\<rparr>),
       falls := (\<lambda>c. noFall)(0 := \<lparr>fnote = n, accum_Y = 0, moving = True\<rparr>),
       nextCircle := 1\<rparr>"
    using assms(1,2)
    by (simp add: run_Cons emitNote_def createCircleNote_def getCx_0 addNoteToKey_def moveCircle_def
        initWorld_def Let_def fun_upd_twist)
  have "run initWorld (NoteDue n # replicate k (Interval 0)) = run ?w (replicate k (Interval 0))"
    by (simp add: run_Cons)
  also have "\<dots> = ?w\<lparr>falls := (falls ?w)(0 := (falls ?w 0)\<lparr>accum_Y := accum_Y (falls ?w 0) + 2 * k\<rparr>),
       circles := (circles ?w)(0 := (circles ?w 0)\<lparr>cy := accum_Y (falls ?w 0) + 2 * k\<rparr>)\<rparr>"
    using assms(3) by (intro run_falling) (simp_all add: w)
  also have "\<dots> = initWorld\<lparr>userPlayedNotesMap := [0 \<mapsto> 0],
       activeNotes := [KeyH \<mapsto> [n], KeyJ \<mapsto> [], KeyK \<mapsto> [], KeyL \<mapsto> []],
       circles := (\<lambda>c. noCircle)(0 := \<lparr>cy = 2 * k, attached = True\<rparr>),
       falls := (\<lambda>c. noFall)(0 := \<lparr>fnote = n, accum_Y = 2 * k, moving = True\<rparr>),
       nextCircle := 1\<rparr>"
    by (rule world.equality) (simp_all add: w)
  finally show ?thesis .
qed

text \<open>
  The world 3325 ms into a track whose first row is \<open>n\<close> and whose third row is the
  second note: the two are at 364 and 354, inside the zone.
\<close>

lemma bothInFlight_reaches:
  assumes "id_note n = 0" "user_played n"
  shows "run initWorld (bothInFlight n) =
     initWorld\<lparr>userPlayedNotesMap := [0 \<mapsto> 0, 2 \<mapsto> 1],
       activeNotes := [KeyH \<mapsto> [n, secondNote], KeyJ \<mapsto> [], KeyK \<mapsto> [], KeyL \<mapsto> []],
       circles := (\<lambda>c. noCircle)(0 := \<lparr>cy = 364, attached = True\<rparr>, 1 := \<lparr>cy = 354, attached = True\<rparr>),
       falls := (\<lambda>c. noFall)(0 := \<lparr>fnote = n, accum_Y = 364, moving = True\<rparr>,
                                1 := \<lparr>fnote = secondNote, accum_Y = 354, moving = True\<rparr>),
       nextCircle := 2\<rparr>"
proof -
  let ?a = "run initWorld (NoteDue n # replicate 5 (Interval 0))"
  let ?b = "report (emitNote secondNote ?a)"
  have b: "?b =
     initWorld\<lparr>userPlayedNotesMap := [0 \<mapsto> 0, 2 \<mapsto> 1],
       activeNotes := [KeyH \<mapsto> [n, secondNote], KeyJ \<mapsto> [], KeyK \<mapsto> [], KeyL \<mapsto> []],
       circles := (\<lambda>c. noCircle)(0 := \<lparr>cy = 10, attached = True\<rparr>, 1 := \<lparr>cy = 0, attached = True\<rparr>),
       falls := (\<lambda>c. noFall)(0 := \<lparr>fnote = n, accum_Y = 10, moving = True\<rparr>,
                                1 := \<lparr>fnote = secondNote, accum_Y = 0, moving = True\<rparr>),
       nextCircle := 2\<rparr>"
    unfolding first_note_fall [OF assms, of 5, simplified]
    by (rule world.equality)
      (simp_all add: emitNote_def createCircleNote_def getCx_2 addNoteToKey_def moveCircle_def
        secondNote_def Let_def fun_upd_twist)
  have "run initWorld (bothInFlight n)
      = run ?b (concat (replicate 177 [Interval 0, Interval 1]))"
    unfolding bothInFlight_def
    using run_append [of initWorld "NoteDue n # replicate 5 (Interval 0)"
        "NoteDue secondNote # concat (replicate 177 [Interval 0, Interval 1])"]
    by (simp add: run_Cons)
  also have "\<dots> =
     ?b\<lparr>falls := (falls ?b)(0 := (falls ?b 0)\<lparr>accum_Y := accum_Y (falls ?b 0) + 2 * 177\<rparr>,
                          1 := (falls ?b 1)\<lparr>accum_Y := accum_Y (falls ?b 1) + 2 * 177\<rparr>),
       circles := (circles ?b)(0 := (circles ?b 0)\<lparr>cy := accum_Y (falls ?b 0) + 2 * 177\<rparr>,
                              1 := (circles ?b 1)\<lparr>cy := accum_Y (falls ?b 1) + 2 * 177\<rparr>)\<rparr>"
    by (rule run_falling_two) (simp_all add: b)
  also have "\<dots> =
     initWorld\<lparr>userPlayedNotesMap := [0 \<mapsto> 0, 2 \<mapsto> 1],
       activeNotes := [KeyH \<mapsto> [n, secondNote], KeyJ \<mapsto> [], KeyK \<mapsto> [], KeyL \<mapsto> []],
       circles := (\<lambda>c. noCircle)(0 := \<lparr>cy = 364, attached = True\<rparr>, 1 := \<lparr>cy = 354, attached = True\<rparr>),
       falls := (\<lambda>c. noFall)(0 := \<lparr>fnote = n, accum_Y = 364, moving = True\<rparr>,
                                1 := \<lparr>fnote = secondNote, accum_Y = 354, moving = True\<rparr>),
       nextCircle := 2\<rparr>"
    unfolding b by (rule world.equality) simp_all
  finally show ?thesis .
qed

lemma delayArg_secondNote: "delayArg secondNote = 1555"
proof -
  have "fl (711428003636183 / 140737488355328 * 1000) = 5055"
    using fl_eval [of 12 "711428003636183 / 140737488355328 * 1000" 5558031278407680] by simp
  moreover have "fl 1555 = 1555" using fl_of_int_exact [of 1555] by simp
  ultimately show ?thesis by (simp add: delayArg_def secondNote_def jsub_def jmul_def)
qed

lemma twoInZone_reached: "run initWorld (bothInFlight scenarioNote) = twoInZone"
  unfolding twoInZone_def by (rule bothInFlight_reaches) (simp_all add: scenarioNote_def)

lemma kazooInZone_reached: "run initWorld (bothInFlight kazooNote) = kazooInZone"
  unfolding kazooInZone_def by (rule bothInFlight_reaches) (simp_all add: kazooNote_def)

text \<open>
  A key press on the lane of two notes in the zone, the first of an instrument without a
  sampler: the press throws at the first note, and the second, in the zone too and with
  a sampler, is not visited.
\<close>

lemma keydown_kazooInZone: "keydown ''KeyH'' kazooInZone = Inl (TypeError, kazooInZone)"
  by (simp add: keydown_def keyOfCode_def notesForKey_def handleKeyPress_def
      isNoteInTargetZone_def playSound_def kazooInZone_def kazooNote_def initWorld_def
      loadedInstruments_def)

section \<open>The notes of a track whose instruments are loaded can be played\<close>

lemma lanes_playable_run:
  assumes "\<forall>n \<in> set (dueNotes es). instrument n \<in> set (samples w)"
    and "\<forall>k. \<forall>n \<in> set (notesForKey w k). instrument n \<in> set (samples w)"
  shows "\<forall>n \<in> set (notesForKey (run w es) key). playable (run w es) n"
  using assms
proof (induction es arbitrary: w)
  case Nil
  then show ?case by (simp add: playable_def)
next
  case (Cons e es)
  have "set (dueNotes es) \<subseteq> set (dueNotes (e # es))" by (cases e) auto
  then have d: "\<forall>n \<in> set (dueNotes es). instrument n \<in> set (samples (step w e))"
    using Cons.prems(1) by (auto simp only: samples_step)
  have "\<forall>n \<in> set (notesForKey (step w e) k). instrument n \<in> set (samples (step w e))" for k
  proof -
    consider "notesForKey (step w e) k = notesForKey w k"
      | n where "e = NoteDue n" "notesForKey (step w e) k = notesForKey w k @ [n]"
      using notesForKey_step [of w e k] by blast
    then show ?thesis
    proof cases
      case 1
      then show ?thesis using Cons.prems(2) by simp
    next
      case 2
      then show ?thesis using Cons.prems by simp
    qed
  qed
  then have "\<forall>n \<in> set (notesForKey (run (step w e) es) key). playable (run (step w e) es) n"
    using d by (intro Cons.IH) simp_all
  then show ?case by (simp add: run_Cons)
qed

text \<open>
  In every run of a track whose instruments are among those the page loads, every note
  of every lane can be played.
\<close>

lemma lanes_playable:
  assumes "\<forall>n \<in> set (dueNotes es). instrument n \<in> set loadedInstruments"
  shows "list_all (playable (run initWorld es)) (inZone (run initWorld es) key)"
proof -
  have "notesForKey initWorld k = []" for k
    by (cases k) (simp_all add: notesForKey_def initWorld_def)
  then have "\<forall>n \<in> set (notesForKey (run initWorld es) key). playable (run initWorld es) n"
    using assms by (intro lanes_playable_run) simp_all
  then show ?thesis by (simp add: inZone_def list_all_iff)
qed

section \<open>The game clock feeds nothing back\<close>

text \<open>A result with the game state of its world replaced.\<close>

lemma report_st:
  "report (map_sum (map_prod id (\<lambda>v. v\<lparr>st := s\<rparr>)) (\<lambda>v. v\<lparr>st := s\<rparr>) r) = (report r)\<lparr>st := s\<rparr>"
  by (cases r) auto

lemma playSound_st:
  "playSound n d (w\<lparr>st := s\<rparr>)
     = map_sum (map_prod id (\<lambda>v. v\<lparr>st := s\<rparr>)) (\<lambda>v. v\<lparr>st := s\<rparr>) (playSound n d w)"
  by (simp add: playSound_def)

lemma addNoteToKey_st: "addNoteToKey key n (w\<lparr>st := s\<rparr>) = (addNoteToKey key n w)\<lparr>st := s\<rparr>"
  by (simp add: addNoteToKey_def split: option.splits)

lemma createCircleNote_st:
  "createCircleNote n (w\<lparr>st := s\<rparr>) = (createCircleNote n w)\<lparr>st := s\<rparr>"
  by (simp add: createCircleNote_def moveCircle_def addNoteToKey_def Let_def split: option.splits)

lemma moveStep_st:
  "moveStep c (w\<lparr>st := s\<rparr>)
     = map_sum (map_prod id (\<lambda>v. v\<lparr>st := s\<rparr>)) (\<lambda>v. v\<lparr>st := s\<rparr>) (moveStep c w)"
  by (simp add: moveStep_def playSound_def Let_def)

lemma handleKeyPress_st:
  "handleKeyPress key n (w\<lparr>st := s\<rparr>)
     = map_sum (map_prod id (\<lambda>v. v\<lparr>st := s\<rparr>)) (\<lambda>v. v\<lparr>st := s\<rparr>) (handleKeyPress key n w)"
  by (simp add: handleKeyPress_def playSound_def Let_def split: option.splits)

lemma forEach_st:
  assumes "\<And>x v. f x (v\<lparr>st := s\<rparr>)
     = map_sum (map_prod id (\<lambda>v. v\<lparr>st := s\<rparr>)) (\<lambda>v. v\<lparr>st := s\<rparr>) (f x v)"
  shows "forEach f xs (w\<lparr>st := s\<rparr>)
     = map_sum (map_prod id (\<lambda>v. v\<lparr>st := s\<rparr>)) (\<lambda>v. v\<lparr>st := s\<rparr>) (forEach f xs w)"
proof (induction xs arbitrary: w)
  case Nil
  then show ?case by simp
next
  case (Cons x xs)
  show ?case by (cases "f x w") (simp_all add: assms Cons.IH id_def)
qed

lemma keydown_st:
  "keydown code (w\<lparr>st := s\<rparr>)
     = map_sum (map_prod id (\<lambda>v. v\<lparr>st := s\<rparr>)) (\<lambda>v. v\<lparr>st := s\<rparr>) (keydown code w)"
  by (simp add: keydown_def notesForKey_def forEach_st handleKeyPress_st split: option.splits)

lemma emitNote_st:
  "emitNote n (w\<lparr>st := s\<rparr>)
     = map_sum (map_prod id (\<lambda>v. v\<lparr>st := s\<rparr>)) (\<lambda>v. v\<lparr>st := s\<rparr>) (emitNote n w)"
  by (simp add: emitNote_def playSound_st createCircleNote_st)

lemma step_st:
  "step (w\<lparr>st := s\<rparr>) e = (if e = Tick then clockTick (w\<lparr>st := s\<rparr>) else (step w e)\<lparr>st := s\<rparr>)"
  by (cases e) (simp_all add: emitNote_st moveStep_st keydown_st report_st)

lemma clockTick_erased: "(clockTick w)\<lparr>st := s\<rparr> = w\<lparr>st := s\<rparr>"
  by (simp add: clockTick_def)

text \<open>
  The game clock feeds nothing back: a run with its ticks removed, started from any
  game state, differs from the run itself in the game state only.
\<close>

lemma run_without_ticks:
  "run (w\<lparr>st := s\<rparr>) (filter (\<lambda>e. e \<noteq> Tick) es) = (run w es)\<lparr>st := s\<rparr>"
proof (induction es arbitrary: w)
  case Nil
  then show ?case by simp
next
  case (Cons e es)
  show ?case
  proof (cases "e = Tick")
    case True
    have "run (w\<lparr>st := s\<rparr>) (filter (\<lambda>e. e \<noteq> Tick) (e # es))
        = run ((clockTick w)\<lparr>st := s\<rparr>) (filter (\<lambda>e. e \<noteq> Tick) es)"
      using True by (simp add: clockTick_erased)
    also have "\<dots> = (run (clockTick w) es)\<lparr>st := s\<rparr>" by (rule Cons.IH)
    finally show ?thesis using True by (simp add: run_Cons)
  next
    case False
    have "run (w\<lparr>st := s\<rparr>) (filter (\<lambda>e. e \<noteq> Tick) (e # es))
        = run ((step w e)\<lparr>st := s\<rparr>) (filter (\<lambda>e. e \<noteq> Tick) es)"
      using False by (simp add: run_Cons step_st)
    also have "\<dots> = (run (step w e) es)\<lparr>st := s\<rparr>" by (rule Cons.IH)
    finally show ?thesis by (simp add: run_Cons)
  qed
qed

lemma createCircleNote_lane_of_id:
  "activeNotes (createCircleNote n w) k =
     (if getCx (of_nat (id_note n)) = Some (case k of KeyH \<Rightarrow> 20 | KeyJ \<Rightarrow> 40 | KeyK \<Rightarrow> 60 | KeyL \<Rightarrow> 80)
      then map_option (\<lambda>ns. ns @ [n]) (activeNotes w k) else activeNotes w k)"
  by (cases k) (auto simp: createCircleNote_def Let_def activeNotes_addNoteToKey)

section \<open>Rows of the track\<close>

lemma length_split_acc:
  "length (split_acc sep cur s) = Suc (length (filter (\<lambda>x. x = sep) s))"
  by (induction s arbitrary: cur) simp_all

lemma length_split: "length (split sep s) = Suc (length (filter (\<lambda>x. x = sep) s))"
  by (simp add: split_def length_split_acc)

lemma field_0: "\<exists>f. field (split sep s) 0 = Some f"
  by (simp add: field_def length_split)

lemma field_1: "field (split sep s) (Suc 0) = None \<longleftrightarrow> sep \<notin> set s"
proof -
  have "filter (\<lambda>x. x = sep) s = [] \<longleftrightarrow> sep \<notin> set s"
    by (auto simp: filter_empty_conv)
  then show ?thesis by (simp add: field_def length_split)
qed

lemma parseRow_throws:
  "parseRow Number div127 index line = Inl TypeError \<longleftrightarrow> CHR '','' \<notin> set line"
proof -
  obtain f where f: "field (split CHR '','' line) 0 = Some f"
    using field_0 [of "CHR '',''" line] ..
  show ?thesis
    using field_1 [of "CHR '',''" line]
    by (cases "field (split CHR '','' line) (Suc 0)") (simp_all add: parseRow_def f Let_def)
qed

lemma parseRow_note:
  assumes "CHR '','' \<in> set line"
  shows "\<exists>note. parseRow Number div127 index line = Inr note \<and> id_note note = index"
proof -
  obtain f where f: "field (split CHR '','' line) 0 = Some f"
    using field_0 [of "CHR '',''" line] ..
  obtain g where g: "field (split CHR '','' line) (Suc 0) = Some g"
    using field_1 [of "CHR '',''" line] assms
    by (cases "field (split CHR '','' line) (Suc 0)") simp_all
  show ?thesis by (simp add: parseRow_def f g Let_def)
qed

lemma mapRows_throws:
  assumes "\<exists>row \<in> set rows. CHR '','' \<notin> set row"
  shows "mapRows Number div127 index rows = Inl TypeError"
  using assms
proof (induction rows arbitrary: index)
  case Nil
  then show ?case by simp
next
  case (Cons line rows)
  show ?case
  proof (cases "CHR '','' \<in> set line")
    case True
    then obtain nt where n: "parseRow Number div127 index line = Inr nt"
      using parseRow_note [of line Number div127 index] by blast
    have "\<exists>row \<in> set rows. CHR '','' \<notin> set row" using Cons.prems True by auto
    then have "mapRows Number div127 (Suc index) rows = Inl TypeError" by (rule Cons.IH)
    then show ?thesis by (simp add: n)
  next
    case False
    then have "parseRow Number div127 index line = Inl TypeError" by (simp add: parseRow_throws)
    then show ?thesis by simp
  qed
qed

lemma mapRows_notes:
  assumes "\<forall>row \<in> set rows. CHR '','' \<in> set row"
  shows "\<exists>ns. mapRows Number div127 index rows = Inr ns \<and> length ns = length rows
           \<and> map id_note ns = [index..<index + length rows]
           \<and> (\<forall>i < length rows. parseRow Number div127 (index + i) (rows ! i) = Inr (ns ! i))"
  using assms
proof (induction rows arbitrary: index)
  case Nil
  then show ?case by simp
next
  case (Cons line rows)
  obtain nt where n: "parseRow Number div127 index line = Inr nt" "id_note nt = index"
    using parseRow_note [of line Number div127 index] Cons.prems by auto
  obtain ns where ns: "mapRows Number div127 (Suc index) rows = Inr ns" "length ns = length rows"
      "map id_note ns = [Suc index..<Suc index + length rows]"
      "\<forall>i < length rows. parseRow Number div127 (Suc index + i) (rows ! i) = Inr (ns ! i)"
    using Cons.IH [of "Suc index"] Cons.prems by auto
  have "\<forall>i < length (line # rows).
      parseRow Number div127 (index + i) ((line # rows) ! i) = Inr ((nt # ns) ! i)"
  proof (intro allI impI)
    fix i
    assume "i < length (line # rows)"
    then show "parseRow Number div127 (index + i) ((line # rows) ! i) = Inr ((nt # ns) ! i)"
      using n(1) ns(4) by (cases i) simp_all
  qed
  then show ?case using n ns by (simp add: upt_rec)
qed

lemma dataRows_nonempty: "[] \<notin> set (dataRows csvContents)"
  by (simp add: dataRows_def)

lemma dataRows_trackText:
  "dataRows trackText = [''True,piano,100,60,5.0,5.5'', ''False,violin,90,48,2.0,2.5'']"
  by (simp add: dataRows_def trackText_def split_def)

lemma dataRows_brokenText: "dataRows brokenText = [''True,piano,100,60,5.0,5.5'', ''oops'']"
  by (simp add: dataRows_def brokenText_def split_def)

lemma dataRows_shortText: "dataRows shortText = [''x,y'']"
  by (simp add: dataRows_def shortText_def split_def)

section \<open>The fallback duration\<close>

lemma jmod_range:
  assumes "0 \<le> x"
  shows "0 \<le> jmod x RNG_m \<and> jmod x RNG_m < RNG_m"
proof -
  have q: "0 \<le> x / 2147483648" using assms by simp
  have "of_int \<lfloor>x / 2147483648\<rfloor> \<le> x / 2147483648" by (rule of_int_floor_le)
  then have lo: "2147483648 * of_int \<lfloor>x / 2147483648\<rfloor> \<le> x"
    by (simp add: pos_le_divide_eq mult.commute)
  have "x / 2147483648 < of_int \<lfloor>x / 2147483648\<rfloor> + 1" by linarith
  then have hi: "x < 2147483648 * of_int \<lfloor>x / 2147483648\<rfloor> + 2147483648"
    by (simp add: pos_divide_less_eq algebra_simps)
  show ?thesis using q lo hi by (simp add: jmod_def trunc_def RNG_m_def)
qed

lemma hash_range:
  assumes "0 \<le> seed"
  shows "0 \<le> hash seed \<and> hash seed < 2147483648"
proof -
  have "0 \<le> fl (RNG_a * seed)" using assms by (intro fl_nonneg) (simp add: RNG_a_def)
  then have "0 \<le> fl (fl (RNG_a * seed) + RNG_c)" by (intro fl_nonneg) (simp add: RNG_c_def)
  then show ?thesis using jmod_range [of "fl (fl (RNG_a * seed) + RNG_c)"]
    by (simp add: hash_def jadd_def jmul_def RNG_m_def)
qed

lemma scale_below_m:
  assumes "h \<le> 2147483648"
  shows "scale h \<le> 536870913 / 536870912"
proof -
  have r1: "fl 4294967296 = 4294967296" using fl_repr [of 1 32] by simp
  have r2: "fl (1073741825 / 536870912) = 1073741825 / 536870912"
    using fl_repr [of 1073741825 "- 29"] by simp
  have r3: "fl (536870913 / 536870912) = 536870913 / 536870912"
    using fl_repr [of 536870913 "- 29"] by simp
  have "2 * h \<le> 4294967296" using assms by simp
  then have "fl (2 * h) \<le> 4294967296" using r1 by (rule fl_le)
  then have "fl (2 * h) / 2147483647 \<le> 1073741825 / 536870912" by simp
  then have "fl (fl (2 * h) / 2147483647) \<le> 1073741825 / 536870912" using r2 by (rule fl_le)
  then have "fl (fl (2 * h) / 2147483647) - 1 \<le> 536870913 / 536870912" by simp
  then have "fl (fl (fl (2 * h) / 2147483647) - 1) \<le> 536870913 / 536870912" using r3 by (rule fl_le)
  then show ?thesis by (simp add: scale_def jsub_def jdiv_def jmul_def RNG_m_minus_1 [unfolded jsub_def])
qed

lemma missDuration_range:
  assumes "0 \<le> endTime n"
  shows "- 1 \<le> missDuration n \<and> missDuration n \<le> 1 + 1 / 2 ^ 29"
proof -
  have h: "0 \<le> hash (endTime n)" "hash (endTime n) \<le> 2147483648"
    using hash_range [OF assms] by simp_all
  show ?thesis using scale_lower [OF h(1)] scale_below_m [OF h(2)] by (simp add: missDuration_def)
qed

lemma missDuration_overNote: "missDuration overNote = 140737488408427 / 140737488355328"
proof -
  have 1: "fl (6044627360585128964441625 / 140737488355328) = 5629497916051307 / 131072"
    using fl_eval [of 35 "6044627360585128964441625 / 140737488355328" 5629497916051307] by simp
  have 2: "fl (5629499534135147 / 131072) = 5629499534135147 / 131072"
    using fl_repr [of 5629499534135147 "- 17"] by simp
  have "\<lfloor>(5629499534135147::rat) / 281474976710656\<rfloor> = 19" by (simp add: floor_eq_iff)
  then have 3: "jmod (5629499534135147 / 131072) RNG_m = 281474976632683 / 131072"
    by (simp add: jmod_def trunc_def RNG_m_def)
  have 4: "fl (281474976632683 / 65536) = 281474976632683 / 65536"
    using fl_repr [of 281474976632683 "- 16"] by simp
  have 5: "fl (281474976632683 / 140737488289792) = 281474976763755 / 140737488355328"
    using fl_eval [of 1 "281474976632683 / 140737488289792" 4503599628220080] by simp
  have 6: "fl (140737488408427 / 140737488355328) = 140737488408427 / 140737488355328"
    using fl_repr [of 140737488408427 "- 47"] by simp
  have h: "hash (5477611105032925 / 140737488355328) = 281474976632683 / 131072"
    by (simp add: hash_def jadd_def jmul_def RNG_a_def RNG_c_def 1 2 3)
  have "scale (281474976632683 / 131072) = 140737488408427 / 140737488355328"
    by (simp add: scale_def jsub_def jdiv_def jmul_def RNG_m_minus_1 [unfolded jsub_def] 4 5 6)
  then show ?thesis by (simp add: missDuration_def overNote_def h)
qed

lemma missDuration_zeroNote: "missDuration zeroNote = 0"
proof -
  have 1: "fl (9671295358538634344562045 / 9007199254740992) = 2147458957 / 2"
    using fl_eval [of 29 "9671295358538634344562045 / 9007199254740992" 9007095693180928] by simp
  have 2: "fl (2147483647 / 2) = 2147483647 / 2"
    using fl_repr [of 2147483647 "- 1"] by simp
  have "\<lfloor>(2147483647::rat) / 4294967296\<rfloor> = 0" by (simp add: floor_eq_iff)
  then have 3: "jmod (2147483647 / 2) RNG_m = 2147483647 / 2"
    by (simp add: jmod_def trunc_def RNG_m_def)
  have 5: "fl 1 = 1" using fl_of_int_exact [of 1] by simp
  have h: "hash (8764079519842641 / 9007199254740992) = 2147483647 / 2"
    by (simp add: hash_def jadd_def jmul_def RNG_a_def RNG_c_def 1 2 3)
  have "scale (2147483647 / 2) = 0"
    by (simp add: scale_def jsub_def jdiv_def jmul_def RNG_m_minus_1 [unfolded jsub_def]
        fl_num_consts 5 fl_0)
  then show ?thesis by (simp add: missDuration_def zeroNote_def h)
qed

lemma missDuration_secondNote: "missDuration secondNote < 0"
proof -
  have 1: "fl 6621091470 = 6621091470" using fl_of_int_exact [of 6621091470] by simp
  have 2: "fl 6621103815 = 6621103815" using fl_of_int_exact [of 6621103815] by simp
  have 3: "jmod 6621103815 RNG_m = 178652871" using jmod_of_int [of 6621103815] by simp
  have h: "hash 6 = 178652871"
    by (simp add: hash_def jadd_def jmul_def RNG_a_def RNG_c_def 1 2 3)
  have r: "fl (1 / 2) = 1 / 2" using fl_repr [of 1 "- 1"] by simp
  have r': "fl (- (1 / 2)) = - (1 / 2)" using r by (simp add: fl_minus)
  have "fl (2 * 178652871) \<le> 357305742"
    using fl_of_int_exact [of 357305742] by simp
  then have "fl (2 * 178652871) / 2147483647 \<le> 1 / 2" by simp
  then have "fl (fl (2 * 178652871) / 2147483647) \<le> 1 / 2" using r by (rule fl_le)
  then have "fl (fl (2 * 178652871) / 2147483647) - 1 \<le> - (1 / 2)" by simp
  then have "fl (fl (fl (2 * 178652871) / 2147483647) - 1) \<le> - (1 / 2)" using r' by (rule fl_le)
  then have "scale 178652871 \<le> - (1 / 2)"
    by (simp add: scale_def jsub_def jdiv_def jmul_def RNG_m_minus_1 [unfolded jsub_def])
  then show ?thesis by (simp add: missDuration_def secondNote_def h)
qed

section \<open>Schedules\<close>

text \<open>
  A schedule in which no two callbacks are due at the same instant is the only schedule
  of its track and key trace: the order of the callbacks is the order of their instants.
\<close>

lemma same_instants_same_schedule:
  assumes "map fst xs = map fst ys" "distinct (map fst xs)" "set xs = set ys"
  shows "xs = ys"
  using assms
proof (induction xs arbitrary: ys)
  case Nil
  then show ?case by simp
next
  case (Cons x xs)
  then obtain y ys' where ys: "ys = y # ys'" by (cases ys) auto
  have k: "fst x = fst y" "map fst xs = map fst ys'" using Cons.prems(1) ys by simp_all
  have nx: "fst x \<notin> fst ` set xs" using Cons.prems(2) by simp
  then have ny: "fst x \<notin> fst ` set ys'"
    using k(2) by (metis list.set_map)
  have "x \<in> set ys" using Cons.prems(3) by auto
  then have xy: "x = y" using ys ny by (auto simp: image_iff)
  have "x \<notin> set xs" "x \<notin> set ys'" using nx ny by (auto simp: image_iff)
  then have "set xs = set ys'" using Cons.prems(3) ys xy by auto
  then have "xs = ys'" using k(2) Cons.prems(2) by (intro Cons.IH) simp_all
  then show ?case using ys xy by simp
qed

lemma schedule_unique:
  assumes "admissible track keys sched" "admissible track keys sched'"
    "distinct (map fst sched)"
  shows "sched' = sched"
proof -
  have m: "mset sched = mset sched'" using assms(1,2) by (simp add: admissible_def)
  then have mk: "mset (map fst sched) = mset (map fst sched')" by simp
  then have d: "distinct (map fst sched')"
    using assms(3) mset_eq_imp_distinct_iff by blast
  have "set (map fst sched) = set (map fst sched')" using mk by (rule mset_eq_setD)
  then have "map fst sched = map fst sched'"
    using assms d by (intro sorted_distinct_set_unique) (simp_all add: admissible_def)
  moreover have "set sched = set sched'" using m by (rule mset_eq_setD)
  ultimately show ?thesis using assms(3) same_instants_same_schedule [of sched sched'] by simp
qed

section \<open>The schedules of the scenario note\<close>

lemma emissionTime_mono: "k < k' \<Longrightarrow> emissionTime n k < emissionTime n k'"
  by (simp add: emissionTime_def)

lemma spawn_before_emission: "spawnTime n \<le> emissionTime n k" "0 < k \<Longrightarrow> spawnTime n < emissionTime n k"
  by (simp_all add: emissionTime_def)

lemma fst_fallsOf: "map fst (fallsOf n a b) = map (emissionTime n) [a..<b]"
  by (simp add: fallsOf_def comp_def)

lemma snd_fallsOf: "map snd (fallsOf n a b) = replicate (b - a) (Fall (id_note n))"
  by (simp add: fallsOf_def comp_def map_replicate_const)

lemma fallsOf_append: "a \<le> m \<Longrightarrow> m \<le> b \<Longrightarrow> fallsOf n a m @ fallsOf n m b = fallsOf n a b"
  using upt_add_eq_append [of a m "b - m"] by (simp add: fallsOf_def)

lemma strict_sorted_emissions: "sorted_wrt (<) (map (emissionTime n) [a..<b])"
  by (simp add: sorted_wrt_map sorted_wrt_mono_rel [OF _ sorted_wrt_upt] emissionTime_mono)

text \<open>
  A key press put between the emissions \<open>m - 1\<close> and \<open>m\<close> of the interval of the only
  note of a track.
\<close>

lemma press_between_admissible:
  assumes "user_played n" "0 < m" "m \<le> 202"
    "emissionTime n (m - 1) \<le> t" "t \<le> emissionTime n m"
  shows "admissible [n] [(t, code)]
     ((spawnTime n, Due n) # fallsOf n 1 m @ (t, Press code) # fallsOf n m 202)"
proof -
  have f: "fallsOf n 1 202 = fallsOf n 1 m @ fallsOf n m 202"
    using assms(2,3) fallsOf_append [of 1 m 202 n] by simp
  have "dueCallbacks [n] [(t, code)] = (spawnTime n, Due n) # fallsOf n 1 202 @ [(t, Press code)]"
    using assms(1) by (simp add: dueCallbacks_def timersOf_def fallsOf_def)
  moreover have "mset ((spawnTime n, Due n) # fallsOf n 1 m @ (t, Press code) # fallsOf n m 202)
      = mset ((spawnTime n, Due n) # (fallsOf n 1 m @ fallsOf n m 202) @ [(t, Press code)])"
    by simp
  ultimately have ms: "mset ((spawnTime n, Due n) # fallsOf n 1 m @ (t, Press code) # fallsOf n m 202)
      = mset (dueCallbacks [n] [(t, code)])"
    by (simp only: f)
  have lo: "emissionTime n k \<le> t" if "k < m" for k
  proof -
    have "k \<le> m - 1" using that by simp
    then have "emissionTime n k \<le> emissionTime n (m - 1)"
      using emissionTime_mono [of k "m - 1" n] by (cases "k = m - 1") simp_all
    then show ?thesis using assms(4) by simp
  qed
  have hi: "t \<le> emissionTime n k" if "m \<le> k" for k
  proof -
    have "emissionTime n m \<le> emissionTime n k"
      using that emissionTime_mono [of m k n] by (cases "k = m") simp_all
    then show ?thesis using assms(5) by simp
  qed
  have s: "sorted (map (emissionTime n) [a..<b])" for a b
    using strict_sorted_emissions [of n a b] by (simp add: strict_sorted_iff)
  have "spawnTime n \<le> t" using lo [of 0] assms(2) by (simp add: emissionTime_def)
  then have "sorted (map fst ((spawnTime n, Due n) # fallsOf n 1 m @ (t, Press code) # fallsOf n m 202))"
    using lo hi s
    by (auto simp add: fst_fallsOf sorted_append spawn_before_emission
        intro: less_imp_le emissionTime_mono order_trans [OF lo hi])
  then show ?thesis using ms by (simp add: admissible_def)
qed

lemma press_between_distinct:
  assumes "0 < m" "emissionTime n (m - 1) < t" "t < emissionTime n m"
  shows "distinct (map fst ((spawnTime n, Due n) # fallsOf n 1 m @ (t, Press code) # fallsOf n m 202))"
proof -
  have lo: "emissionTime n k < t" if "k < m" for k
  proof -
    have "k \<le> m - 1" using that by simp
    then have "emissionTime n k \<le> emissionTime n (m - 1)"
      using emissionTime_mono [of k "m - 1" n] by (cases "k = m - 1") simp_all
    then show ?thesis using assms(2) by simp
  qed
  have hi: "t < emissionTime n k" if "m \<le> k" for k
  proof -
    have "emissionTime n m \<le> emissionTime n k"
      using that emissionTime_mono [of m k n] by (cases "k = m") simp_all
    then show ?thesis using assms(3) by simp
  qed
  have sp: "spawnTime n < t" using lo [of 0] assms(1) by (simp add: emissionTime_def)
  have sx: "spawnTime n < emissionTime n k" if "m \<le> k" for k
    using sp hi [OF that] by simp
  have "sorted_wrt (<) (map fst ((spawnTime n, Due n) # fallsOf n 1 m @ (t, Press code) # fallsOf n m 202))"
    using lo hi sp sx strict_sorted_emissions [of n]
    by (auto simp add: fst_fallsOf sorted_wrt_append spawn_before_emission
        intro: emissionTime_mono less_trans [OF lo hi])
  then show ?thesis by (simp only: strict_sorted_iff)
qed

text \<open>What the three schedules deliver.\<close>

lemma deliver_falls:
  "refs i = Some r \<Longrightarrow>
   deliver refs c (replicate k (Fall i) @ cs) = replicate k (Interval r) @ deliver refs c cs"
  by (induction k) simp_all

lemma events_press_between:
  assumes "user_played n" "0 < m" "m \<le> 202"
  shows "events ((spawnTime n, Due n) # fallsOf n 1 m @ (t, Press code) # fallsOf n m 202)
     = NoteDue n # replicate (m - 1) (Interval 0) @ KeyDown code # replicate (202 - m) (Interval 0)"
proof -
  let ?refs = "[id_note n \<mapsto> (0::nat)]"
  have "deliver ?refs 1 (replicate (m - 1) (Fall (id_note n))
          @ Press code # replicate (202 - m) (Fall (id_note n)) @ [])
      = replicate (m - 1) (Interval 0) @ KeyDown code # replicate (202 - m) (Interval 0) @ []"
    by (simp add: deliver_falls del: append_Nil2)
  then show ?thesis using assms(1) by (simp add: events_def snd_fallsOf)
qed

section \<open>A press in the zone, a press before it\<close>

lemma scenario_hit_at:
  assumes "175 \<le> k" "k \<le> 185"
  shows "run initWorld (NoteDue scenarioNote # replicate k (Interval 0) @ [KeyDown ''KeyH'']) =
     initWorld\<lparr>userPlayedNotesMap := Map.empty,
       activeNotes := [KeyH \<mapsto> [scenarioNote], KeyJ \<mapsto> [], KeyK \<mapsto> [], KeyL \<mapsto> []],
       circles := (\<lambda>c. noCircle)(0 := \<lparr>cy = 2 * k, attached = False\<rparr>),
       falls := (\<lambda>c. noFall)(0 := \<lparr>fnote = scenarioNote, accum_Y = 2 * k, moving = True\<rparr>),
       nextCircle := 1,
       sounds := [hitSound scenarioNote]\<rparr>"
proof -
  have k: "k < 200" using assms(2) by simp
  have z: "isNoteInTargetZone (2 * k)" using assms by (simp add: isNoteInTargetZone_def)
  have "run initWorld (NoteDue scenarioNote # replicate k (Interval 0) @ [KeyDown ''KeyH''])
      = step (run initWorld (NoteDue scenarioNote # replicate k (Interval 0))) (KeyDown ''KeyH'')"
    using run_snoc [of initWorld "NoteDue scenarioNote # replicate k (Interval 0)"] by simp
  also have "\<dots> = initWorld\<lparr>userPlayedNotesMap := Map.empty,
       activeNotes := [KeyH \<mapsto> [scenarioNote], KeyJ \<mapsto> [], KeyK \<mapsto> [], KeyL \<mapsto> []],
       circles := (\<lambda>c. noCircle)(0 := \<lparr>cy = 2 * k, attached = False\<rparr>),
       falls := (\<lambda>c. noFall)(0 := \<lparr>fnote = scenarioNote, accum_Y = 2 * k, moving = True\<rparr>),
       nextCircle := 1,
       sounds := [hitSound scenarioNote]\<rparr>"
    unfolding scenario_fall [OF k]
    by (rule world.equality)
      (simp_all add: keydown_def keyOfCode_def notesForKey_def handleKeyPress_def z
        playSound_def hitSound_def Let_def)
  finally show ?thesis .
qed

text \<open>
  A press while the note is in the zone is a hit; the fall goes on, the note is
  force-missed at the bottom, and the next emission completes the fall.
\<close>

lemma scenario_press_in_zone:
  assumes "175 \<le> k" "k \<le> 185"
  shows "sounds (run initWorld (NoteDue scenarioNote # replicate k (Interval 0)
            @ KeyDown ''KeyH'' # replicate (201 - k) (Interval 0)))
     = [hitSound scenarioNote, missSound scenarioNote]"
proof -
  let ?h = "run initWorld (NoteDue scenarioNote # replicate k (Interval 0) @ [KeyDown ''KeyH''])"
  let ?u = "run ?h (replicate (199 - k) (Interval 0))"
  have j: "201 - k = (199 - k) + 2" using assms(2) by simp
  have r: "replicate (201 - k) (Interval 0) = replicate (199 - k) (Interval 0) @ [Interval 0, Interval 0]"
    unfolding j replicate_add by (simp add: numeral_2_eq_2)
  have "run initWorld (NoteDue scenarioNote # replicate k (Interval 0)
            @ KeyDown ''KeyH'' # replicate (201 - k) (Interval 0))
      = run ?h (replicate (199 - k) (Interval 0) @ [Interval 0, Interval 0])"
    unfolding r
    using run_append [of initWorld "NoteDue scenarioNote # replicate k (Interval 0) @ [KeyDown ''KeyH'']"
        "replicate (199 - k) (Interval 0) @ [Interval 0, Interval 0]"]
    by simp
  also have "\<dots> = step (step ?u (Interval 0)) (Interval 0)"
    by (simp only: run_append run_Cons run_Nil)
  finally have e: "run initWorld (NoteDue scenarioNote # replicate k (Interval 0)
            @ KeyDown ''KeyH'' # replicate (201 - k) (Interval 0))
      = step (step ?u (Interval 0)) (Interval 0)" .
  have u: "?u =
      ?h\<lparr>falls := (falls ?h)(0 := (falls ?h 0)\<lparr>accum_Y := accum_Y (falls ?h 0) + 2 * (199 - k)\<rparr>),
       circles := (circles ?h)(0 := (circles ?h 0)\<lparr>cy := accum_Y (falls ?h 0) + 2 * (199 - k)\<rparr>)\<rparr>"
    using assms by (intro run_falling) (simp_all add: scenario_hit_at)
  have a: "accum_Y (falls ?u 0) = 398" "moving (falls ?u 0)" "fnote (falls ?u 0) = scenarioNote"
    "sounds ?u = [hitSound scenarioNote]" "samples ?u = loadedInstruments"
    using assms unfolding u by (simp_all add: scenario_hit_at [OF assms])
  let ?b = "step ?u (Interval 0)"
  have b: "sounds ?b = [hitSound scenarioNote, missSound scenarioNote]"
    "moving (falls ?b 0)" "accum_Y (falls ?b 0) = 400"
    unfolding step_bottom [OF a(2) a(1)] by (simp_all add: a)
  have "sounds (step ?b (Interval 0)) = sounds ?b"
    unfolding step_completes [OF b(2) b(3)] by simp
  then show ?thesis by (simp only: e b(1))
qed

text \<open>A press before the note reaches the zone does nothing.\<close>

lemma scenario_press_before_zone:
  assumes "k < 175"
  shows "run initWorld (NoteDue scenarioNote # replicate k (Interval 0) @ KeyDown ''KeyH'' # es)
     = run initWorld (NoteDue scenarioNote # replicate k (Interval 0) @ es)"
proof -
  let ?f = "run initWorld (NoteDue scenarioNote # replicate k (Interval 0))"
  have k: "k < 200" using assms by simp
  have z: "\<not> isNoteInTargetZone (2 * k)" using assms by (simp add: isNoteInTargetZone_def)
  have "step ?f (KeyDown ''KeyH'') = ?f"
    unfolding scenario_fall [OF k]
    by (simp add: keydown_def keyOfCode_def notesForKey_def handleKeyPress_def z)
  then have "run ?f (KeyDown ''KeyH'' # es) = run ?f es" by (simp only: run_Cons)
  then show ?thesis
    using run_append [of initWorld "NoteDue scenarioNote # replicate k (Interval 0)" "KeyDown ''KeyH'' # es"]
      run_append [of initWorld "NoteDue scenarioNote # replicate k (Interval 0)" es]
    by simp
qed

lemma emissionTime_scenarioNote: "emissionTime scenarioNote k = 1500 + 10 * of_nat k"
  by (simp add: emissionTime_def spawnTime_scenarioNote)

lemma user_played_scenarioNote [simp]: "user_played scenarioNote"
  by (simp add: scenarioNote_def)

lemma admissible_fallFirst: "admissible [scenarioNote] [(3250, ''KeyH'')] fallFirst"
  unfolding fallFirst_def
  by (rule press_between_admissible) (simp_all add: emissionTime_scenarioNote)

lemma admissible_pressFirst: "admissible [scenarioNote] [(3250, ''KeyH'')] pressFirst"
  unfolding pressFirst_def
  by (rule press_between_admissible) (simp_all add: emissionTime_scenarioNote)

lemma admissible_clearPress: "admissible [scenarioNote] [(3305, ''KeyH'')] clearPress"
  unfolding clearPress_def
  by (rule press_between_admissible) (simp_all add: emissionTime_scenarioNote)

lemma distinct_clearPress: "distinct (map fst clearPress)"
  unfolding clearPress_def
  by (rule press_between_distinct) (simp_all add: emissionTime_scenarioNote)

lemma events_fallFirst:
  "events fallFirst = NoteDue scenarioNote # replicate 175 (Interval 0)
     @ KeyDown ''KeyH'' # replicate 26 (Interval 0)"
  unfolding fallFirst_def using events_press_between [of scenarioNote 176 3250 "''KeyH''"] by simp

lemma events_pressFirst:
  "events pressFirst = NoteDue scenarioNote # replicate 174 (Interval 0)
     @ KeyDown ''KeyH'' # replicate 27 (Interval 0)"
  unfolding pressFirst_def using events_press_between [of scenarioNote 175 3250 "''KeyH''"] by simp

lemma events_clearPress:
  "events clearPress = NoteDue scenarioNote # replicate 180 (Interval 0)
     @ KeyDown ''KeyH'' # replicate 21 (Interval 0)"
  unfolding clearPress_def using events_press_between [of scenarioNote 181 3305 "''KeyH''"] by simp

lemma sounds_fallFirst:
  "sounds (run initWorld (events fallFirst)) = [hitSound scenarioNote, missSound scenarioNote]"
  unfolding events_fallFirst using scenario_press_in_zone [of 175] by simp

lemma sounds_pressFirst: "sounds (run initWorld (events pressFirst)) = [missSound scenarioNote]"
proof -
  have "replicate 174 (Interval 0) @ replicate 27 (Interval 0) = replicate 201 (Interval (0::nat))"
    using replicate_add [of 174 27 "Interval (0::nat)"] by simp
  then have "run initWorld (events pressFirst)
      = run initWorld (NoteDue scenarioNote # replicate 201 (Interval 0))"
    unfolding events_pressFirst using scenario_press_before_zone [of 174 "replicate 27 (Interval 0)"]
    by simp
  then show ?thesis by (simp add: scenario_after_miss)
qed

lemma sounds_clearPress:
  "sounds (run initWorld (events clearPress)) = [hitSound scenarioNote, missSound scenarioNote]"
  unfolding events_clearPress using scenario_press_in_zone [of 180] by simp

section \<open>The claims\<close>

text \<open>
  Claim C1 says that a hit outcome strictly increases \<open>multiplier\<close>.  The scenario note is
  spawned, falls for 180 intervals to \<open>cy = 360\<close>, and the key of its lane goes down: the
  press is a hit (its playback is requested), and \<open>multiplier\<close> is not greater than before.
\<close>

theorem C1_hit_does_not_raise_multiplier:
  "sounds (run initWorld (NoteDue scenarioNote # replicate 180 (Interval 0) @ [KeyDown ''KeyH'']))
     = [hitSound scenarioNote]
   \<and> \<not> multiplier (st (run initWorld (NoteDue scenarioNote # replicate 180 (Interval 0))))
        < multiplier (st (run initWorld
            (NoteDue scenarioNote # replicate 180 (Interval 0) @ [KeyDown ''KeyH''])))"
  by (simp add: scenario_hit)

text \<open>
  Claim C1, amended: the scoring state is changed by the game-clock tick only, whose
  reducer replaces it by \<open>initialState\<close> whatever it was: after a tick \<open>multiplier\<close> is 0,
  its initial value, and \<open>score\<close> is 0.  Hit and miss outcomes do not reach the state: a
  key press, an interval of a fall and a note coming due leave it as it was.
\<close>

theorem C1_only_the_tick_changes_the_state:
  "st (step w (KeyDown code)) = st w
   \<and> st (step w (Interval c)) = st w
   \<and> st (step w (NoteDue n)) = st w
   \<and> st (step w Tick) = initialState
   \<and> multiplier (scanState s k) = 0 \<and> score (scanState s k) = 0
   \<and> multiplier initialState = 0"
  by (simp add: initialState_def scanState_def)

text \<open>
  Claim C2 says that a note resolved as a hit never fires a miss playback afterwards.
  The scenario note is hit at \<open>cy = 360\<close>; its fall is not cancelled, and 20 intervals
  later, at \<open>cy = 400\<close>, the fallback playback of a forced miss is requested for the
  same note.  (The other direction holds: \<open>no_hit_at_bottom\<close>, \<open>keydown_twice\<close>.)
\<close>

theorem C2_miss_playback_after_hit:
  "sounds (run initWorld (NoteDue scenarioNote # replicate 180 (Interval 0) @ [KeyDown ''KeyH'']))
     = [hitSound scenarioNote]
   \<and> sounds (run initWorld (NoteDue scenarioNote # replicate 180 (Interval 0)
        @ KeyDown ''KeyH'' # replicate 20 (Interval 0)))
     = [hitSound scenarioNote, missSound scenarioNote]"
  by (simp add: scenario_hit scenario_hit_then_bottom)

text \<open>
  Claim C3 says that a player note is spawned at \<open>startTime - leadTime\<close> and that its
  position reaches the hit line at 360 exactly at \<open>startTime\<close>.  The scenario note starts
  at 5 s: it is spawned at 1500 ms, 3500 ms ahead, but falls 2 per 10 ms, so the interval
  that puts it on the hit line is the 180th, due at 3300 ms, 1700 ms early; the interval
  due at 5000 ms is the 350th, long after the forced miss at the bottom.  (A background
  note is played at its \<open>startTime\<close>.  Lemma \<open>fall_position\<close> gives the position \<open>2 * k\<close>
  after \<open>k\<close> intervals for every note.)
\<close>

theorem C3_note_reaches_hit_line_early:
  "delayArg scenarioNote = 1000 * startTime scenarioNote - 3500
   \<and> cy (circles (run initWorld (NoteDue scenarioNote # replicate 179 (Interval 0))) 0) = 358
   \<and> cy (circles (run initWorld (NoteDue scenarioNote # replicate 180 (Interval 0))) 0) = 360
   \<and> emissionTime scenarioNote 180 = 3300
   \<and> emissionTime scenarioNote 180 = 1000 * startTime scenarioNote - 1700
   \<and> emissionTime scenarioNote 350 = 1000 * startTime scenarioNote
   \<and> cy (circles (run initWorld (NoteDue scenarioNote # replicate 350 (Interval 0))) 0) = 400
   \<and> \<not> attached (circles (run initWorld (NoteDue scenarioNote # replicate 350 (Interval 0))) 0)
   \<and> sounds (run initWorld (NoteDue scenarioNote # replicate 350 (Interval 0)))
       = [missSound scenarioNote]
   \<and> delayArg autoNote = 1000 * startTime autoNote"
proof -
  have s: "startTime scenarioNote = 5" "startTime autoNote = 2"
    by (simp_all add: scenarioNote_def autoNote_def)
  show ?thesis
    by (simp add: scenario_fall scenario_after_miss delayArg_scenarioNote delayArg_autoNote
        emissionTime_scenarioNote s)
qed



text \<open>
  Claim C5 says that a key press resolves as a hit every pending note of its lane that
  is within 10 of the hit line.  A track has a note of the instrument \<^verbatim>\<open>kazoo\<close> in its
  first row and the second note, a piano note of the same lane, in its third; 3325 ms
  into the track both are in flight inside the zone, at 364 and 354, and \<^verbatim>\<open>KeyH\<close> goes
  down.  \<^verbatim>\<open>samples\<close> has no sampler for the first note: \<^verbatim>\<open>playSound\<close> throws, the
  exception ends the \<^verbatim>\<open>forEach\<close>, and neither note is resolved, although \<^verbatim>\<open>samples\<close> has
  a sampler for the second.
\<close>

theorem C5_press_stops_at_a_note_without_sampler:
  "inZone (run initWorld (bothInFlight kazooNote)) KeyH = [kazooNote, secondNote]
   \<and> playable (run initWorld (bothInFlight kazooNote)) secondNote
   \<and> keydown ''KeyH'' (run initWorld (bothInFlight kazooNote))
       = Inl (TypeError, run initWorld (bothInFlight kazooNote))
   \<and> sounds (step (run initWorld (bothInFlight kazooNote)) (KeyDown ''KeyH'')) = []
   \<and> userPlayedNotesMap (step (run initWorld (bothInFlight kazooNote)) (KeyDown ''KeyH'')) 0 = Some 0
   \<and> userPlayedNotesMap (step (run initWorld (bothInFlight kazooNote)) (KeyDown ''KeyH'')) 2 = Some 1
   \<and> attached (circles (step (run initWorld (bothInFlight kazooNote)) (KeyDown ''KeyH'')) 0)
   \<and> attached (circles (step (run initWorld (bothInFlight kazooNote)) (KeyDown ''KeyH'')) 1)
   \<and> uncaught (step (run initWorld (bothInFlight kazooNote)) (KeyDown ''KeyH'')) = [TypeError]"
proof -
  have n: "notesForKey kazooInZone KeyH = [kazooNote, secondNote]"
    by (simp add: notesForKey_def kazooInZone_def)
  have "pendingInZone kazooInZone kazooNote" "pendingInZone kazooInZone secondNote"
    by (simp_all add: pendingInZone_def kazooInZone_def kazooNote_def secondNote_def
        isNoteInTargetZone_def)
  then have z: "inZone kazooInZone KeyH = [kazooNote, secondNote]"
    by (simp add: inZone_def n)
  have p: "playable kazooInZone secondNote"
    by (simp add: playable_def kazooInZone_def secondNote_def)
  have s: "step kazooInZone (KeyDown ''KeyH'') = kazooInZone\<lparr>uncaught := [TypeError]\<rparr>"
    by (simp add: keydown_kazooInZone) (simp add: kazooInZone_def)
  show ?thesis
    unfolding kazooInZone_reached s
    using z p keydown_kazooInZone by (simp add: kazooInZone_def)
qed

text \<open>
  Claim C5, amended: where \<^verbatim>\<open>samples\<close> has a sampler for each note of the lane that is in
  the zone, a key press for a lane resolves as a hit every pending note of the lane
  whose position is within 10 of the hit line at 360, several at once if there are
  several, and is a no-op, not an error, when there is none.  A hit requests the
  playback, removes the circle and deletes the registry entry.  The lane's list holds
  each note id once (\<open>activeNotes_distinct\<close>: so it is in every run of a track with
  unique ids); \<^verbatim>\<open>samples\<close> has the samplers in every run of a track whose instruments are
  among those the page loads (\<open>lanes_playable\<close>).  Lemma \<open>forEach_handleKeyPress\<close> is the
  general case.
\<close>

theorem C5_key_press_hits_all_in_zone:
  assumes "keyOfCode code = Some key" "distinct (map id_note (notesForKey w key))"
    "list_all (playable w) (inZone w key)"
  shows "keydown code w = Inr (step w (KeyDown code))
       \<and> uncaught (step w (KeyDown code)) = uncaught w
       \<and> sounds (step w (KeyDown code)) = sounds w @ map hitSound (inZone w key)
       \<and> (\<forall>i. userPlayedNotesMap (step w (KeyDown code)) i =
             (if i \<in> id_note ` set (inZone w key) then None else userPlayedNotesMap w i))
       \<and> (\<forall>c. circles (step w (KeyDown code)) c =
             (if \<exists>n \<in> set (inZone w key). userPlayedNotesMap w (id_note n) = Some c
              then (circles w c)\<lparr>attached := False\<rparr> else circles w c))
       \<and> (if inZone w key = [] then step w (KeyDown code) = w else True)
       \<and> inZone w key = filter (pendingInZone w) (notesForKey w key)
       \<and> (\<forall>n. pendingInZone w n \<longleftrightarrow>
             (\<exists>c. userPlayedNotesMap w (id_note n) = Some c
                  \<and> \<bar>int (cy (circles w c)) - 360\<bar> \<le> 10))"
proof -
  let ?ns = "notesForKey w key"
  let ?r = "forEach (handleKeyPress key) ?ns w"
  have k: "keydown code w = ?r" using assms(1) by (simp add: keydown_def)
  have t: "takeWhile (playable w) (filter (pendingInZone w) ?ns) = inZone w key"
    using assms(3) by (simp add: inZone_def list_all_iff)
  have a: "list_all (playable w) (filter (pendingInZone w) ?ns)"
    using assms(3) by (simp add: inZone_def)
  note f = forEach_handleKeyPress [OF assms(2), of key w, unfolded t]
  have "\<not> isl ?r" using f a by simp
  moreover have sr: "step w (KeyDown code) = report ?r" by (simp add: k)
  ultimately have 1: "keydown code w = Inr (step w (KeyDown code))"
    unfolding k sr by (cases ?r) simp_all
  have 2: "uncaught (step w (KeyDown code)) = uncaught w" using f a by (simp add: k)
  have 3: "sounds (step w (KeyDown code)) = sounds w @ map hitSound (inZone w key)"
    using f by (simp add: k)
  have 4: "\<forall>i. userPlayedNotesMap (step w (KeyDown code)) i =
      (if i \<in> id_note ` set (inZone w key) then None else userPlayedNotesMap w i)"
    using f by (simp add: k)
  have 5: "\<forall>c. circles (step w (KeyDown code)) c =
      (if \<exists>n \<in> set (inZone w key). userPlayedNotesMap w (id_note n) = Some c
       then (circles w c)\<lparr>attached := False\<rparr> else circles w c)"
    using circles_forEach [OF assms(2), of key w, unfolded t] by (simp add: k)
  have 6: "if inZone w key = [] then step w (KeyDown code) = w else True"
    using forEach_noop [of w ?ns key] by (simp add: k inZone_def)
  have 7: "inZone w key = filter (pendingInZone w) ?ns" by (simp add: inZone_def)
  have 8: "\<forall>n. pendingInZone w n \<longleftrightarrow>
      (\<exists>c. userPlayedNotesMap w (id_note n) = Some c \<and> \<bar>int (cy (circles w c)) - 360\<bar> \<le> 10)"
    by (auto simp: pendingInZone_def target_zone_tolerance split: option.splits)
  show ?thesis by (intro conjI 1 2 3 4 5 6 7 8)
qed

text \<open>
  Claim C5, amended, 3325 ms into the track of the scenario note and the second note,
  both in the zone: one press of the key of the lane resolves both.
\<close>

theorem C5_two_notes_one_press:
  "keyOfCode ''KeyH'' = Some KeyH
   \<and> distinct (map id_note (notesForKey (run initWorld (bothInFlight scenarioNote)) KeyH))
   \<and> list_all (playable (run initWorld (bothInFlight scenarioNote)))
        (inZone (run initWorld (bothInFlight scenarioNote)) KeyH)
   \<and> inZone (run initWorld (bothInFlight scenarioNote)) KeyH = [scenarioNote, secondNote]
   \<and> keydown ''KeyH'' (run initWorld (bothInFlight scenarioNote))
       = Inr (step (run initWorld (bothInFlight scenarioNote)) (KeyDown ''KeyH''))
   \<and> sounds (step (run initWorld (bothInFlight scenarioNote)) (KeyDown ''KeyH''))
       = [hitSound scenarioNote, hitSound secondNote]
   \<and> userPlayedNotesMap (step (run initWorld (bothInFlight scenarioNote)) (KeyDown ''KeyH'')) 0 = None
   \<and> userPlayedNotesMap (step (run initWorld (bothInFlight scenarioNote)) (KeyDown ''KeyH'')) 2 = None
   \<and> \<not> attached (circles (step (run initWorld (bothInFlight scenarioNote)) (KeyDown ''KeyH'')) 0)
   \<and> \<not> attached (circles (step (run initWorld (bothInFlight scenarioNote)) (KeyDown ''KeyH'')) 1)"
proof -
  have k: "keyOfCode ''KeyH'' = Some KeyH" by (simp add: keyOfCode_def)
  have n: "notesForKey twoInZone KeyH = [scenarioNote, secondNote]"
    by (simp add: notesForKey_def twoInZone_def)
  have d: "distinct (map id_note (notesForKey twoInZone KeyH))"
    by (simp add: n scenarioNote_def secondNote_def)
  have "pendingInZone twoInZone scenarioNote" "pendingInZone twoInZone secondNote"
    by (simp_all add: pendingInZone_def twoInZone_def scenarioNote_def secondNote_def
        isNoteInTargetZone_def)
  then have z: "inZone twoInZone KeyH = [scenarioNote, secondNote]"
    by (simp add: inZone_def n)
  have "playable twoInZone scenarioNote" "playable twoInZone secondNote"
    by (simp_all add: playable_def twoInZone_def scenarioNote_def secondNote_def)
  then have p: "list_all (playable twoInZone) (inZone twoInZone KeyH)"
    by (simp add: z)
  note t = C5_key_press_hits_all_in_zone [OF k d p]
  have e: "sounds twoInZone = []" by (simp add: twoInZone_def)
  have 1: "keydown ''KeyH'' twoInZone = Inr (step twoInZone (KeyDown ''KeyH''))"
    by (rule t [THEN conjunct1])
  have s: "sounds (step twoInZone (KeyDown ''KeyH'')) = [hitSound scenarioNote, hitSound secondNote]"
    using t [THEN conjunct2, THEN conjunct2, THEN conjunct1] by (simp only: z e) simp
  have m: "userPlayedNotesMap (step twoInZone (KeyDown ''KeyH'')) i =
      (if i \<in> id_note ` set [scenarioNote, secondNote] then None else userPlayedNotesMap twoInZone i)"
    for i using t [THEN conjunct2, THEN conjunct2, THEN conjunct2, THEN conjunct1] by (simp only: z)
  have c: "circles (step twoInZone (KeyDown ''KeyH'')) c =
      (if \<exists>n \<in> set [scenarioNote, secondNote]. userPlayedNotesMap twoInZone (id_note n) = Some c
       then (circles twoInZone c)\<lparr>attached := False\<rparr> else circles twoInZone c)"
    for c
    using t [THEN conjunct2, THEN conjunct2, THEN conjunct2, THEN conjunct2, THEN conjunct1]
    by (simp only: z)
  have m0: "userPlayedNotesMap (step twoInZone (KeyDown ''KeyH'')) 0 = None"
    unfolding m by (simp add: scenarioNote_def)
  have m2: "userPlayedNotesMap (step twoInZone (KeyDown ''KeyH'')) 2 = None"
    unfolding m by (simp add: secondNote_def)
  have c0: "\<not> attached (circles (step twoInZone (KeyDown ''KeyH'')) 0)"
    unfolding c by (simp add: twoInZone_def scenarioNote_def)
  have c1: "\<not> attached (circles (step twoInZone (KeyDown ''KeyH'')) 1)"
    unfolding c by (simp add: twoInZone_def scenarioNote_def secondNote_def)
  show ?thesis unfolding twoInZone_reached by (intro conjI k d p z 1 s m0 m2 c0 c1)
qed

text \<open>
  Claim C6 says that a tick with no outstanding notes and no further scheduled events
  sets \<open>gameEnd\<close>.  On the empty track nothing is ever outstanding, and after the first
  tick \<open>gameEnd\<close> is false.
\<close>

theorem C6_empty_track_never_ends:
  "\<not> gameEnd (st (run initWorld [Tick]))"
  by (simp add: initialState_def)

text \<open>
  Claim C6, amended: no event sets \<open>gameEnd\<close>.  The tick replaces the state by
  \<open>initialState\<close>, whose \<open>gameEnd\<close> is false, whatever the notes outstanding; after every
  run from the initial world, the empty track included, \<open>gameEnd\<close> is false.
\<close>

theorem C6_gameEnd_stays_false:
  "\<not> gameEnd (st (run initWorld es)) \<and> \<not> gameEnd (scanState s k)
   \<and> \<not> gameEnd (st (step w Tick))"
  by (simp add: initialState_def scanState_def)

text \<open>
  Claim C7 says that malformed rows are dropped and never abort the load.  A row with no
  comma ends the load with a \<^verbatim>\<open>TypeError\<close>, the note of the row before it included; a
  row with too few columns is not dropped but loaded, with \<^verbatim>\<open>Number(undefined)\<close> in
  the missing fields (here \<open>Number\<close> maps a missing column to \<open>-1\<close>).
\<close>

theorem C7_malformed_rows_abort_or_load:
  "loadCSV (\<lambda>col. 0 :: rat) (\<lambda>x. x / 127) brokenText = Inl TypeError
   \<and> loadCSV (\<lambda>col. if col = None then - 1 else 0 :: rat) (\<lambda>x. x / 127) shortText
       = Inr [\<lparr>id_note = 0, user_played = False, instrument = ''y'', velocity = - 1 / 127,
               pitch = - 1, startTime = - 1, endTime = - 1\<rparr>]"
  by (simp add: loadCSV_def dataRows_brokenText dataRows_shortText parseRow_def field_def
      split_def trim_def isSpace_def Let_def)

text \<open>
  Claim C7, amended: empty rows are skipped; when some non-empty data row has no comma
  the load throws a \<^verbatim>\<open>TypeError\<close>; otherwise every non-empty data row yields exactly
  one note, in order, with ids \<open>0, 1, ...\<close>, whatever its columns hold.
\<close>

theorem C7_loadCSV:
  "[] \<notin> set (dataRows csvContents)
   \<and> (if \<exists>row \<in> set (dataRows csvContents). CHR '','' \<notin> set row
      then loadCSV Number div127 csvContents = Inl TypeError
      else \<exists>ns. loadCSV Number div127 csvContents = Inr ns
             \<and> length ns = length (dataRows csvContents)
             \<and> map id_note ns = [0..<length (dataRows csvContents)]
             \<and> (\<forall>i < length (dataRows csvContents).
                   parseRow Number div127 i (dataRows csvContents ! i) = Inr (ns ! i)))"
proof (cases "\<exists>row \<in> set (dataRows csvContents). CHR '','' \<notin> set row")
  case True
  then have "loadCSV Number div127 csvContents = Inl TypeError"
    unfolding loadCSV_def by (rule mapRows_throws)
  then show ?thesis using True dataRows_nonempty by simp
next
  case False
  then have "\<forall>row \<in> set (dataRows csvContents). CHR '','' \<in> set row" by simp
  then show ?thesis
    using False dataRows_nonempty mapRows_notes [of "dataRows csvContents" Number div127 0]
    by (simp add: loadCSV_def)
qed

text \<open>Claim C7, amended, at the track of two rows and an empty line: it loads as two notes.\<close>

theorem C7_two_rows_two_notes:
  "dataRows trackText = [''True,piano,100,60,5.0,5.5'', ''False,violin,90,48,2.0,2.5'']
   \<and> (\<exists>ns. loadCSV (\<lambda>col. 0 :: rat) (\<lambda>x. x / 127) trackText = Inr ns
         \<and> length ns = 2 \<and> map id_note ns = [0, 1])"
proof -
  have "\<not> (\<exists>row \<in> set (dataRows trackText). CHR '','' \<notin> set row)"
    by (simp add: dataRows_trackText)
  then have "\<exists>ns. loadCSV (\<lambda>col. 0 :: rat) (\<lambda>x. x / 127) trackText = Inr ns
      \<and> length ns = length (dataRows trackText)
      \<and> map id_note ns = [0..<length (dataRows trackText)]"
    using C7_loadCSV [of trackText "\<lambda>col. 0 :: rat" "\<lambda>x. x / 127"] by auto
  then show ?thesis by (simp add: dataRows_trackText upt_rec numeral_2_eq_2)
qed




text \<open>
  Claim C9 says that some integer seed makes the scaled hash exactly 1 and the index 4,
  so that \<open>getCx\<close> reads outside \<open>cxValues\<close> and the note joins no lane.  No integer
  seed does: for every integer seed the scaled hash is below 1 and the index is not 4.
\<close>

theorem C9_no_integer_seed_reaches_index_4:
  "\<not> (\<exists>seed :: int. scale (hash (of_int seed)) = 1 \<or> cxIndex (of_int seed) = 4)"
proof
  assume "\<exists>seed :: int. scale (hash (of_int seed)) = 1 \<or> cxIndex (of_int seed) = 4"
  then obtain seed :: int where "scale (hash (of_int seed)) = 1 \<or> cxIndex (of_int seed) = 4" ..
  then show False using scale_hash_int [of seed] cxIndex_int_upper [of seed] by auto
qed

text \<open>
  Claim C9, amended: lane assignment is total on note ids.  An id is an array index,
  below \<open>2^32\<close>, where no product leaves the range of binary64.  For every note the
  index computed from its id lies in \<open>0..3\<close>, \<open>getCx\<close> returns one of the four values of
  \<open>cxValues\<close>, and \<open>createCircleNote\<close> appends the note to the pending list of exactly
  one lane (the list of a lane missing from \<open>activeNotes\<close> stays missing).
\<close>

theorem C9_lane_assignment_total:
  assumes "id_note n < 2 ^ 32"
  shows "(0 \<le> cxIndex (of_nat (id_note n)) \<and> cxIndex (of_nat (id_note n)) \<le> 3)
   \<and> (getCx (of_nat (id_note n)) = Some 20 \<or> getCx (of_nat (id_note n)) = Some 40
      \<or> getCx (of_nat (id_note n)) = Some 60 \<or> getCx (of_nat (id_note n)) = Some 80)
   \<and> (\<exists>key. \<forall>k. activeNotes (createCircleNote n w) k =
         (if k = key then map_option (\<lambda>ns. ns @ [n]) (activeNotes w k) else activeNotes w k))"
  using cxIndex_id [of "id_note n"] getCx_id [of "id_note n"] createCircleNote_lane [of n w]
  by blast

text \<open>Claim C9, amended, at the first row of a track: its index is in range, its lane is the first.\<close>

theorem C9_lane_of_first_row:
  "id_note scenarioNote < 2 ^ 32
   \<and> 0 \<le> cxIndex (of_nat (id_note scenarioNote)) \<and> cxIndex (of_nat (id_note scenarioNote)) \<le> 3
   \<and> getCx (of_nat (id_note scenarioNote)) = Some 20"
proof -
  have i: "id_note scenarioNote < 2 ^ 32" by simp
  note t = C9_lane_assignment_total [OF i, of initWorld]
  show ?thesis using t [THEN conjunct1] i getCx_0 by simp
qed

text \<open>
  Claim C10 says that the fallback duration of a forced miss lies in \<open>[-1, 1]\<close>, the
  range that the comment on \<^verbatim>\<open>RNG.scale\<close> gives.  The note of the track row
  \<^verbatim>\<open>True,piano,127,64,38.5,38.9207678\<close> falls to the bottom unplayed: the hash of its end
  time is 2147483647.405..., above \<open>m - 1\<close>, \<open>scale\<close> maps it above 1, and the playback of
  the forced miss is requested with that duration.  (The rest of the claim holds: the
  duration is at least \<open>-1\<close> for a non-negative end time, \<open>missDuration_range\<close>; it can be
  zero, \<open>missDuration_zeroNote\<close>, and negative, \<open>missDuration_secondNote\<close>; \<open>soundDuration\<close>
  replaces a duration of 0 by \<open>endTime - startTime\<close> and hands every other one on.)
\<close>

theorem C10_fallback_duration_above_one:
  "endTime overNote = 5477611105032925 / 140737488355328
   \<and> scale (hash (endTime overNote)) = 140737488408427 / 140737488355328
   \<and> 1 < scale (hash (endTime overNote))
   \<and> sounds (run initWorld (NoteDue overNote # replicate 200 (Interval 0))) = [missSound overNote]
   \<and> pb_supplied (missSound overNote) = Some (scale (hash (endTime overNote)))
   \<and> pb_duration (missSound overNote) = 140737488408427 / 140737488355328"
proof -
  have p: "playable initWorld overNote" by (simp add: playable_def overNote_def)
  have u: "user_played overNote" by (simp add: overNote_def)
  have "run initWorld (NoteDue overNote # replicate 200 (Interval 0))
      = run (createCircleNote overNote initWorld) (replicate 200 (Interval (nextCircle initWorld)))"
    using u by (simp add: run_Cons emitNote_def initWorld_def)
  then have s: "sounds (run initWorld (NoteDue overNote # replicate 200 (Interval 0)))
      = [missSound overNote]"
    using miss_at_bottom [OF p] by simp
  have m: "scale (hash (endTime overNote)) = 140737488408427 / 140737488355328"
    using missDuration_overNote by (simp add: missDuration_def)
  have e: "endTime overNote = 5477611105032925 / 140737488355328" by (simp add: overNote_def)
  have d: "pb_duration (missSound overNote) = 140737488408427 / 140737488355328"
    using missDuration_overNote by (simp add: missSound_def soundDuration_def)
  have b: "pb_supplied (missSound overNote) = Some (scale (hash (endTime overNote)))"
    by (simp add: missSound_def missDuration_def)
  have o: "1 < scale (hash (endTime overNote))" unfolding m by simp
  show ?thesis by (intro conjI e m o s b d)
qed

end
